theory Spec2Isabelle
  imports Complex_Main "HOL-Library.Word"
begin

section \<open>Pixel data of a canvas\<close>

text \<open>
  The editor of \<^verbatim>\<open>src/App.tsx\<close> works on \<^verbatim>\<open>ctx.getImageData(0, 0, width, height).data\<close>:
  a \<^verbatim>\<open>Uint8ClampedArray\<close> of \<open>4 * width * height\<close> bytes, four bytes (R, G, B, A) for each
  pixel, the pixel \<open>(x, y)\<close> at byte offset \<open>(y * width + x) * 4\<close>. The array is a list of
  bytes here. Coordinates come from \<^verbatim>\<open>Math.floor\<close> of a mouse position and may be negative,
  so they are integers.

  Reading a typed array outside its range gives \<^verbatim>\<open>undefined\<close> (the value \<open>None\<close> below);
  writing outside its range does nothing.

  The handlers are modelled on a canvas that exists and has a 2d context (they return at once
  otherwise) and whose width and height are positive, as \<^verbatim>\<open>getImageData\<close> requires.
\<close>

type_synonym byte = "8 word"

type_synonym pos = "int \<times> int"

type_synonym pixel = "byte \<times> byte \<times> byte \<times> byte"

definition rd :: "byte list \<Rightarrow> int \<Rightarrow> byte option" where
  "rd data i = (if 0 \<le> i \<and> i < int (length data) then Some (data ! nat i) else None)"

definition wr :: "byte list \<Rightarrow> int \<Rightarrow> byte \<Rightarrow> byte list" where
  "wr data i v = (if 0 \<le> i \<and> i < int (length data) then data[nat i := v] else data)"

text \<open>
  Pixels as the claims speak of them: the pixel with index \<open>i\<close> is the four bytes from offset
  \<open>4 * i\<close>, and the pixel at \<open>(x, y)\<close> has index \<open>y * width + x\<close>.
\<close>

definition in_bounds :: "nat \<Rightarrow> nat \<Rightarrow> pos \<Rightarrow> bool" where
  "in_bounds width height p =
     (0 \<le> fst p \<and> fst p < int width \<and> 0 \<le> snd p \<and> snd p < int height)"

definition pixel_index :: "nat \<Rightarrow> pos \<Rightarrow> nat" where
  "pixel_index width p = nat (snd p * int width + fst p)"

definition get_pixel :: "byte list \<Rightarrow> nat \<Rightarrow> pixel" where
  "get_pixel data i = (data ! (4 * i), data ! (4 * i + 1), data ! (4 * i + 2), data ! (4 * i + 3))"

definition pixel_at :: "byte list \<Rightarrow> nat \<Rightarrow> pos \<Rightarrow> pixel" where
  "pixel_at data width p = get_pixel data (pixel_index width p)"

definition red :: "pixel \<Rightarrow> byte" where "red p = fst p"
definition green :: "pixel \<Rightarrow> byte" where "green p = fst (snd p)"
definition blue :: "pixel \<Rightarrow> byte" where "blue p = fst (snd (snd p))"
definition alpha :: "pixel \<Rightarrow> byte" where "alpha p = snd (snd (snd p))"

text \<open>
  The tolerant match of the specification, with the tolerance 15 of the editor: each of red,
  green and blue differs by at most 15. \<open>transparent\<close> is a pixel with its alpha set to 0.
\<close>

definition within_tolerance :: "pixel \<Rightarrow> pixel \<Rightarrow> bool" where
  "within_tolerance p t =
     (\<bar>uint (red p) - uint (red t)\<bar> \<le> 15 \<and>
      \<bar>uint (green p) - uint (green t)\<bar> \<le> 15 \<and>
      \<bar>uint (blue p) - uint (blue t)\<bar> \<le> 15)"

definition transparent :: "pixel \<Rightarrow> pixel" where
  "transparent p = (red p, green p, blue p, 0)"

text \<open>
  How a call of a handler ends: it returns, with the pixel data the canvas then holds; it
  throws an error; or it never ends. Neither \<^verbatim>\<open>floodFill\<close> nor \<^verbatim>\<open>removeColor\<close> contains a
  \<^verbatim>\<open>throw\<close>, and both return \<^verbatim>\<open>void\<close>: a call that ends hands the data array back to the
  canvas (\<^verbatim>\<open>putImageData\<close>), or returns early and leaves the canvas as it was. The errors
  are those the specification names.
\<close>

datatype error = OutOfBounds | EmptyInput

datatype 'a outcome = Returns 'a | Throws error | Diverges

section \<open>removeColor (the magic wand)\<close>

definition tolerance :: int where
  "tolerance = 15"

text \<open>
  \<^verbatim>\<open>Math.abs(data[i] - r) <= tolerance\<close>: arithmetic on \<^verbatim>\<open>undefined\<close> is \<^verbatim>\<open>NaN\<close>, and every
  comparison with \<^verbatim>\<open>NaN\<close> is false.
\<close>

definition close_to :: "byte option \<Rightarrow> byte option \<Rightarrow> bool" where
  "close_to v c =
     (case v of None \<Rightarrow> False
      | Some a \<Rightarrow> (case c of None \<Rightarrow> False | Some b \<Rightarrow> \<bar>uint a - uint b\<bar> \<le> tolerance))"

text \<open>\<^verbatim>\<open>data[i+3] > 0\<close>\<close>

definition positive :: "byte option \<Rightarrow> bool" where
  "positive v = (case v of None \<Rightarrow> False | Some a \<Rightarrow> 0 < uint a)"

definition mask_cond :: "byte option \<Rightarrow> byte option \<Rightarrow> byte option \<Rightarrow> byte list \<Rightarrow> nat \<Rightarrow> bool" where
  "mask_cond r g b data i =
     (close_to (rd data (int i)) r \<and>
      close_to (rd data (int i + 1)) g \<and>
      close_to (rd data (int i + 2)) b \<and>
      positive (rd data (int i + 3)))"

lemma length_wr [simp]: "length (wr data i v) = length data"
  by (simp add: wr_def)

text \<open>\<^verbatim>\<open>for (let i = 0; i < data.length; i += 4) { if (...) data[i + 3] = 0; }\<close>\<close>

function mask_loop :: "byte option \<Rightarrow> byte option \<Rightarrow> byte option \<Rightarrow> nat \<Rightarrow> byte list \<Rightarrow> byte list" where
  "mask_loop r g b i data =
     (if i < length data
      then mask_loop r g b (i + 4) (if mask_cond r g b data i then wr data (int i + 3) 0 else data)
      else data)"
  by pat_completeness auto
termination
  by (relation "measure (\<lambda>(r, g, b, i, data). length data - i)") auto

declare mask_loop.simps [simp del]

definition removeColor :: "nat \<Rightarrow> nat \<Rightarrow> byte list \<Rightarrow> int \<Rightarrow> int \<Rightarrow> byte list outcome" where
  "removeColor width height data startX startY =
     (let targetIndex = (startY * int width + startX) * 4;
          r = rd data targetIndex;
          g = rd data (targetIndex + 1);
          b = rd data (targetIndex + 2);
          a = rd data (targetIndex + 3)
      in if a = Some 0 then Returns data
         else Returns (mask_loop r g b 0 data))"

section \<open>floodFill (the fill bucket)\<close>

text \<open>
  \<^verbatim>\<open>hexToRgb\<close> cuts the colour string into three slices and reads each with
  \<^verbatim>\<open>parseInt(_, 16)\<close>, which reads the longest prefix of hexadecimal digits and gives
  \<^verbatim>\<open>NaN\<close> (here \<open>None\<close>) when there is none. \<^verbatim>\<open>parseInt\<close> would also skip leading white
  space and accept a sign or a \<^verbatim>\<open>0x\<close> prefix; the colour of the editor is the value of an
  \<^verbatim>\<open><input type="color">\<close>, a \<^verbatim>\<open>#\<close> followed by six hexadecimal digits (\<open>is_hex_color\<close>
  below), where none of that occurs, and the model leaves it out.
\<close>

definition hexDigit :: "char \<Rightarrow> nat option" where
  "hexDigit c =
     (let n = (of_char c :: nat)
      in if 48 \<le> n \<and> n \<le> 57 then Some (n - 48)
         else if 97 \<le> n \<and> n \<le> 102 then Some (n - 87)
         else if 65 \<le> n \<and> n \<le> 70 then Some (n - 55)
         else None)"

fun hexDigits :: "string \<Rightarrow> nat list" where
  "hexDigits [] = []"
| "hexDigits (c # cs) = (case hexDigit c of None \<Rightarrow> [] | Some d \<Rightarrow> d # hexDigits cs)"

definition parseInt16 :: "string \<Rightarrow> nat option" where
  "parseInt16 s =
     (case hexDigits s of [] \<Rightarrow> None | d # ds \<Rightarrow> Some (foldl (\<lambda>a e. 16 * a + e) 0 (d # ds)))"

definition slice :: "string \<Rightarrow> nat \<Rightarrow> nat \<Rightarrow> string" where
  "slice s i j = take (j - i) (drop i s)"

definition hexToRgb :: "string \<Rightarrow> nat option \<times> nat option \<times> nat option" where
  "hexToRgb hex = (parseInt16 (slice hex 1 3), parseInt16 (slice hex 3 5), parseInt16 (slice hex 5 7))"

text \<open>
  \<^verbatim>\<open>targetR === fillColor.r\<close> compares a value read from the array (a byte or
  \<^verbatim>\<open>undefined\<close>) with a number (or \<^verbatim>\<open>NaN\<close>): it holds only for a byte and a number of the
  same value. A store into a \<^verbatim>\<open>Uint8ClampedArray\<close> clamps the number to \<open>0..255\<close> and stores
  0 for \<^verbatim>\<open>NaN\<close>.
\<close>

definition strict_eq :: "byte option \<Rightarrow> nat option \<Rightarrow> bool" where
  "strict_eq v n =
     (case v of None \<Rightarrow> False | Some a \<Rightarrow> (case n of None \<Rightarrow> False | Some k \<Rightarrow> unat a = k))"

definition to_clamped :: "nat option \<Rightarrow> byte" where
  "to_clamped n = (case n of None \<Rightarrow> 0 | Some k \<Rightarrow> of_nat (min k 255))"

text \<open>
  The target colour is the four values read at the seed's offset; the fill colour is the three
  numbers of \<^verbatim>\<open>hexToRgb(color)\<close> and \<^verbatim>\<open>fillA = 255\<close>. In the loop,
  \<^verbatim>\<open>data[pixelPos] === targetR\<close> compares two values read from the array.
\<close>

type_synonym target = "byte option \<times> byte option \<times> byte option \<times> byte option"

type_synonym fill = "nat option \<times> nat option \<times> nat option \<times> nat option"

definition matches :: "byte list \<Rightarrow> int \<Rightarrow> target \<Rightarrow> bool" where
  "matches data pixelPos t =
     (case t of (targetR, targetG, targetB, targetA) \<Rightarrow>
        rd data pixelPos = targetR \<and>
        rd data (pixelPos + 1) = targetG \<and>
        rd data (pixelPos + 2) = targetB \<and>
        rd data (pixelPos + 3) = targetA)"

definition fill_pixel :: "byte list \<Rightarrow> int \<Rightarrow> fill \<Rightarrow> byte list" where
  "fill_pixel data pixelPos f =
     (case f of (fillR, fillG, fillB, fillA) \<Rightarrow>
        wr (wr (wr (wr data pixelPos (to_clamped fillR))
                  (pixelPos + 1) (to_clamped fillG))
              (pixelPos + 2) (to_clamped fillB))
          (pixelPos + 3) (to_clamped fillA))"

text \<open>
  One round of \<^verbatim>\<open>while (pixelStack.length)\<close>. The stack is a list whose head is the top
  (the last element of the JavaScript array): \<^verbatim>\<open>pop\<close> takes the head and the four
  \<^verbatim>\<open>push\<close> calls, in the order \<open>(x+1, y)\<close>, \<open>(x-1, y)\<close>, \<open>(x, y+1)\<close>, \<open>(x, y-1)\<close>,
  leave \<open>(x, y-1)\<close> on top. The test \<^verbatim>\<open>if (!newPos) continue\<close> never fires for a
  non-empty stack of pairs.
\<close>

definition fill_step :: "nat \<Rightarrow> nat \<Rightarrow> target \<Rightarrow> fill \<Rightarrow> pos list \<times> byte list \<Rightarrow> pos list \<times> byte list" where
  "fill_step width height t f s =
     (case s of
        ([], data) \<Rightarrow> ([], data)
      | ((x, y) # rest, data) \<Rightarrow>
          if x < 0 \<or> x \<ge> int width \<or> y < 0 \<or> y \<ge> int height then (rest, data)
          else let pixelPos = (y * int width + x) * 4
               in if matches data pixelPos t
                  then ((x, y - 1) # (x, y + 1) # (x - 1, y) # (x + 1, y) # rest,
                        fill_pixel data pixelPos f)
                  else (rest, data))"

text \<open>
  The loop itself. Nothing in the loop bounds the number of rounds, so the result is an option:
  \<open>None\<close> stands for a loop that never ends.
\<close>

partial_function (option) fill_loop ::
  "nat \<Rightarrow> nat \<Rightarrow> target \<Rightarrow> fill \<Rightarrow> pos list \<Rightarrow> byte list \<Rightarrow> byte list option" where
  "fill_loop width height t f pixelStack data =
     (if pixelStack = [] then Some data
      else (case fill_step width height t f (pixelStack, data) of
              (pixelStack', data') \<Rightarrow> fill_loop width height t f pixelStack' data'))"

declare fill_loop.simps [code]

text \<open>
  \<^verbatim>\<open>floodFill(startX, startY)\<close> on a canvas of the given size and pixel data, with the
  editor's current \<^verbatim>\<open>color\<close>.
\<close>

definition floodFill :: "nat \<Rightarrow> nat \<Rightarrow> string \<Rightarrow> byte list \<Rightarrow> int \<Rightarrow> int \<Rightarrow> byte list outcome" where
  "floodFill width height color data startX startY =
     (let targetIndex = (startY * int width + startX) * 4;
          targetR = rd data targetIndex;
          targetG = rd data (targetIndex + 1);
          targetB = rd data (targetIndex + 2);
          targetA = rd data (targetIndex + 3);
          fillColor = hexToRgb color;
          fillA = Some 255
      in if strict_eq targetR (fst fillColor) \<and> strict_eq targetG (fst (snd fillColor)) \<and>
            strict_eq targetB (snd (snd fillColor)) \<and> strict_eq targetA fillA
         then Returns data
         else (case fill_loop width height (targetR, targetG, targetB, targetA)
                      (fst fillColor, fst (snd fillColor), snd (snd fillColor), fillA)
                      [(startX, startY)] data of
                 None \<Rightarrow> Diverges
               | Some data' \<Rightarrow> Returns data'))"

subsection \<open>Connected components and the colours of a call\<close>

text \<open>
  The four neighbours of a position, in the order they lie on the stack after the pushes, and
  the 4-connected component of the seed: the in-bounds positions reachable from the seed by
  steps to a neighbour whose pixel equals the seed's pixel in all four bytes.
\<close>

definition neighbours :: "pos \<Rightarrow> pos list" where
  "neighbours p = [(fst p, snd p - 1), (fst p, snd p + 1), (fst p - 1, snd p), (fst p + 1, snd p)]"

inductive_set component :: "nat \<Rightarrow> nat \<Rightarrow> byte list \<Rightarrow> pos \<Rightarrow> pos set"
  for width height data seed where
  seed: "in_bounds width height seed \<Longrightarrow> seed \<in> component width height data seed"
| step: "p \<in> component width height data seed \<Longrightarrow> q \<in> set (neighbours p) \<Longrightarrow>
         in_bounds width height q \<Longrightarrow> pixel_at data width q = pixel_at data width seed \<Longrightarrow>
         q \<in> component width height data seed"

definition target_of :: "pixel \<Rightarrow> target" where
  "target_of p = (Some (red p), Some (green p), Some (blue p), Some (alpha p))"

definition fill_px :: "fill \<Rightarrow> pixel" where
  "fill_px f = (case f of (fillR, fillG, fillB, fillA) \<Rightarrow>
     (to_clamped fillR, to_clamped fillG, to_clamped fillB, to_clamped fillA))"

text \<open>
  A well-formed colour string of the editor, and the pixel \<^verbatim>\<open>floodFill\<close> writes for it: the
  three parsed channels and alpha 255.
\<close>

definition is_hex_color :: "string \<Rightarrow> bool" where
  "is_hex_color color =
     (case color of [] \<Rightarrow> False
      | h # ds \<Rightarrow> h = CHR ''#'' \<and> length ds = 6 \<and> list_all (\<lambda>d. hexDigit d \<noteq> None) ds)"

definition newColor :: "string \<Rightarrow> pixel" where
  "newColor color =
     fill_px (fst (hexToRgb color), fst (snd (hexToRgb color)), snd (snd (hexToRgb color)), Some 255)"

text \<open>
  The fill colour as \<^verbatim>\<open>floodFill\<close> passes it to its loop.
\<close>

definition fill_of :: "string \<Rightarrow> fill" where
  "fill_of color =
     (fst (hexToRgb color), fst (snd (hexToRgb color)), snd (snd (hexToRgb color)), Some 255)"

subsection \<open>The states of the loop\<close>

text \<open>
  The states \<open>(pixelStack, data)\<close> at the head of the \<^verbatim>\<open>while\<close> loop: the first state and
  the state after each round. \<open>loop_states\<close> are the states of the loop as \<^verbatim>\<open>floodFill\<close>
  runs it (none when it returns before the loop).
\<close>

inductive_set fill_states ::
  "nat \<Rightarrow> nat \<Rightarrow> target \<Rightarrow> fill \<Rightarrow> pos \<Rightarrow> byte list \<Rightarrow> (pos list \<times> byte list) set"
  for width height t f seed data where
  init: "([seed], data) \<in> fill_states width height t f seed data"
| iter: "s \<in> fill_states width height t f seed data \<Longrightarrow> fst s \<noteq> [] \<Longrightarrow>
         fill_step width height t f s \<in> fill_states width height t f seed data"

definition loop_states ::
  "nat \<Rightarrow> nat \<Rightarrow> string \<Rightarrow> byte list \<Rightarrow> int \<Rightarrow> int \<Rightarrow> (pos list \<times> byte list) set" where
  "loop_states width height color data startX startY =
     (let targetIndex = (startY * int width + startX) * 4;
          targetR = rd data targetIndex;
          targetG = rd data (targetIndex + 1);
          targetB = rd data (targetIndex + 2);
          targetA = rd data (targetIndex + 3);
          fillColor = hexToRgb color;
          fillA = Some 255
      in if strict_eq targetR (fst fillColor) \<and> strict_eq targetG (fst (snd fillColor)) \<and>
            strict_eq targetB (snd (snd fillColor)) \<and> strict_eq targetA fillA
         then {}
         else fill_states width height (targetR, targetG, targetB, targetA)
                (fst fillColor, fst (snd fillColor), snd (snd fillColor), fillA)
                (startX, startY) data)"

subsection \<open>Loop invariant and termination measure\<close>

text \<open>
  The invariant of the loop, relative to the pixel data \<open>d0\<close> at the start: only pixels of the
  seed's component have changed, and they hold the fill pixel \<open>fp\<close>; every in-bounds neighbour
  of a changed pixel that still has the target colour is on the stack; the seed is on the stack
  or has changed; every stack entry is the seed or a neighbour of a changed pixel. The measure
  counts five for every pixel that still has the target colour and one for every stack entry.
\<close>

definition fill_inv :: "nat \<Rightarrow> nat \<Rightarrow> byte list \<Rightarrow> pos \<Rightarrow> pixel \<Rightarrow> pos list \<times> byte list \<Rightarrow> bool" where
  "fill_inv width height d0 seed fp s =
     (case s of (stack, data) \<Rightarrow>
        length data = length d0 \<and>
        (\<forall>a. in_bounds width height a \<and> pixel_at data width a \<noteq> pixel_at d0 width a \<longrightarrow>
             pixel_at data width a = fp \<and> a \<in> component width height d0 seed) \<and>
        (\<forall>a q. in_bounds width height a \<and> pixel_at data width a \<noteq> pixel_at d0 width a \<and>
             q \<in> set (neighbours a) \<and> in_bounds width height q \<and>
             pixel_at data width q = pixel_at d0 width seed \<longrightarrow> q \<in> set stack) \<and>
        (seed \<in> set stack \<or> pixel_at data width seed \<noteq> pixel_at d0 width seed) \<and>
        (\<forall>q \<in> set stack. q = seed \<or>
             (\<exists>a. in_bounds width height a \<and> pixel_at data width a \<noteq> pixel_at d0 width a \<and>
                  q \<in> set (neighbours a))))"

definition todo :: "nat \<Rightarrow> nat \<Rightarrow> pixel \<Rightarrow> byte list \<Rightarrow> nat" where
  "todo width height tp data = card {i. i < width * height \<and> get_pixel data i = tp}"

definition fill_measure :: "nat \<Rightarrow> nat \<Rightarrow> pixel \<Rightarrow> pos list \<times> byte list \<Rightarrow> nat" where
  "fill_measure width height tp s = 5 * todo width height tp (snd s) + length (fst s)"

section \<open>handleAssembleSheet (the sprite sheet)\<close>

text \<open>
  \<^verbatim>\<open>handleAssembleSheet\<close> reads the sheet settings of the application state, loads every
  image of \<^verbatim>\<open>sheetImages\<close>, draws them on a new canvas and stores the canvas's data URL in
  \<^verbatim>\<open>generatedImage\<close>. An image is modelled by its size, a canvas by its size and the list of
  its \<^verbatim>\<open>drawImage(img, dx, dy)\<close> calls in order, and the data URL by the canvas it encodes.
  The alignments are the string literals \<^verbatim>\<open>'left' | 'center' | 'right'\<close> and
  \<^verbatim>\<open>'top' | 'center' | 'bottom'\<close>. The only error message the handler sets is a fixed
  Vietnamese sentence ("cannot assemble the images"), the constructor \<open>CannotAssemble\<close>.
\<close>

datatype halign = Left | Center | Right

datatype valign = Top | VCenter | Bottom

record image =
  img_width :: nat
  img_height :: nat

record canvas =
  canvas_width :: int
  canvas_height :: int
  drawn :: "(image \<times> int \<times> int) list"

datatype picture = DataUrl string | ToDataURL canvas

datatype message = CannotAssemble

record app_state =
  sheetImages :: "string list"
  sheetColumns :: int
  sheetSpacing :: int
  sheetVerticalAlignment :: valign
  sheetHorizontalAlignment :: halign
  generatedImage :: "picture option"
  isGenerating :: bool
  error :: "message option"

text \<open>
  \<^verbatim>\<open>Promise.all(sheetImages.map(...))\<close>: every source is loaded; one failing image
  (\<^verbatim>\<open>img.onerror\<close>) rejects the whole promise. Loading is a parameter \<open>load\<close> of the model.
\<close>

fun load_all :: "(string \<Rightarrow> image option) \<Rightarrow> string list \<Rightarrow> image list option" where
  "load_all load [] = Some []"
| "load_all load (src # srcs) =
     (case load src of None \<Rightarrow> None
      | Some img \<Rightarrow> (case load_all load srcs of None \<Rightarrow> None | Some imgs \<Rightarrow> Some (img # imgs)))"

text \<open>
  Arithmetic of the handler on integers: \<^verbatim>\<open>Math.max(...xs)\<close> of a non-empty list,
  \<^verbatim>\<open>Math.ceil(n / c)\<close> and \<^verbatim>\<open>Math.floor(i / c)\<close> for \<open>c \<noteq> 0\<close> (the quotient of two
  integers rounded up and down), and the remainder \<^verbatim>\<open>a % b\<close>, which takes the sign of
  \<open>a\<close>. The handler computes on JavaScript's doubles, which are exact on integers below
  \<open>2^53\<close> only, and the width and the height of a canvas are 32-bit attributes that hold
  values below \<open>2^31\<close> only. The model computes on unbounded integers, so it is the handler
  where every number the handler computes is an integer below these bounds; the theorems on
  sizes and positions carry that as hypotheses on the sheet. With at least one column, a spacing
  that is not negative, \<open>N\<close> images and \<open>rows\<close> rows, every product and sum of the handler is at
  most \<open>columns * (maxWidth + spacing)\<close> or \<open>rows * (maxHeight + spacing)\<close>, and the quotients
  \<open>N / columns\<close> and \<open>i / columns\<close> are rounded to the right integer when \<open>N + columns\<close> is
  below \<open>2^53\<close>.
\<close>

definition math_max :: "int \<Rightarrow> int list \<Rightarrow> int" where
  "math_max x xs = fold max xs x"

definition math_ceil_div :: "int \<Rightarrow> int \<Rightarrow> int" where
  "math_ceil_div n c = - ((- n) div c)"

definition js_rem :: "int \<Rightarrow> int \<Rightarrow> int" where
  "js_rem a b = sgn a * (\<bar>a\<bar> mod \<bar>b\<bar>)"

definition xOffset :: "halign \<Rightarrow> int \<Rightarrow> image \<Rightarrow> int" where
  "xOffset al maxWidth img =
     (if al = Center then (maxWidth - int (img_width img)) div 2
      else if al = Right then maxWidth - int (img_width img)
      else 0)"

definition yOffset :: "valign \<Rightarrow> int \<Rightarrow> image \<Rightarrow> int" where
  "yOffset al maxHeight img =
     (if al = VCenter then (maxHeight - int (img_height img)) div 2
      else if al = Bottom then maxHeight - int (img_height img)
      else 0)"

text \<open>
  The body of \<^verbatim>\<open>loadedImages.forEach((img, i) => ...)\<close>: the arguments of the one
  \<^verbatim>\<open>ctx.drawImage\<close> call of image \<open>i\<close>.
\<close>

definition draw_call :: "app_state \<Rightarrow> int \<Rightarrow> int \<Rightarrow> nat \<times> image \<Rightarrow> image \<times> int \<times> int" where
  "draw_call st maxWidth maxHeight e =
     (case e of (i, img) \<Rightarrow>
        let cols = sheetColumns st;
            spacing = sheetSpacing st;
            col = js_rem (int i) cols;
            row = int i div cols;
            x = col * (maxWidth + spacing);
            y = row * (maxHeight + spacing)
        in (img, x + xOffset (sheetHorizontalAlignment st) maxWidth img,
                 y + yOffset (sheetVerticalAlignment st) maxHeight img))"

text \<open>
  The handler. \<open>has_ctx\<close> says whether \<^verbatim>\<open>canvas.getContext('2d')\<close> gives a context. The
  canvas gets the size of the grid first and, for exactly one image, the size of that image
  afterwards; then every image is drawn.
  \<^verbatim>\<open>setIsGenerating(true)\<close> is undone by the \<^verbatim>\<open>finally\<close> block on every path that enters
  the \<^verbatim>\<open>try\<close>; the \<^verbatim>\<open>catch\<close> block sets the error message.
\<close>

definition handleAssembleSheet :: "(string \<Rightarrow> image option) \<Rightarrow> bool \<Rightarrow> app_state \<Rightarrow> app_state" where
  "handleAssembleSheet load has_ctx st =
     (if length (sheetImages st) = 0 then st
      else case load_all load (sheetImages st) of
        None \<Rightarrow> st\<lparr>isGenerating := False, error := Some CannotAssemble\<rparr>
      | Some loadedImages \<Rightarrow>
          (case loadedImages of
             [] \<Rightarrow> st\<lparr>isGenerating := False\<rparr>
           | first # others \<Rightarrow>
               let maxWidth = math_max (int (img_width first)) (map (\<lambda>i. int (img_width i)) others);
                   maxHeight = math_max (int (img_height first)) (map (\<lambda>i. int (img_height i)) others);
                   cols = sheetColumns st;
                   spacing = sheetSpacing st;
                   rows = math_ceil_div (int (length loadedImages)) cols;
                   canvas0 = \<lparr>canvas_width = cols * maxWidth + (cols - 1) * spacing,
                              canvas_height = rows * maxHeight + (rows - 1) * spacing,
                              drawn = []\<rparr>;
                   canvas1 = (if length loadedImages = 1
                              then canvas0\<lparr>canvas_width := maxWidth, canvas_height := maxHeight\<rparr>
                              else canvas0)
               in if \<not> has_ctx then st\<lparr>isGenerating := False\<rparr>
                  else st\<lparr>generatedImage :=
                            Some (ToDataURL
                              (canvas1\<lparr>drawn := map (draw_call st maxWidth maxHeight)
                                                  (enumerate 0 loadedImages)\<rparr>)),
                          isGenerating := False\<rparr>))"

text \<open>
  The cell size of the specification: the maximum width and the maximum height of the images.
\<close>

definition cellW :: "image list \<Rightarrow> int" where
  "cellW imgs = Max (set (map (\<lambda>i. int (img_width i)) imgs))"

definition cellH :: "image list \<Rightarrow> int" where
  "cellH imgs = Max (set (map (\<lambda>i. int (img_height i)) imgs))"

section \<open>Properties of removeColor\<close>

lemma length_mask_loop [simp]: "length (mask_loop r g b i data) = length data"
  by (induction r g b i data rule: mask_loop.induct) (subst mask_loop.simps, simp)

lemma rd_wr_other: "j \<noteq> i \<Longrightarrow> rd (wr data i v) j = rd data j"
  by (auto simp: rd_def wr_def)

lemma mask_cond_wr_below:
  "i + 4 \<le> k \<Longrightarrow> mask_cond r g b (wr data (int i + 3) v) k = mask_cond r g b data k"
  by (simp add: mask_cond_def rd_wr_other)

lemma nth_wr: "j < length data \<Longrightarrow> wr data (int i) v ! j = (if j = i then v else data ! j)"
  by (auto simp: wr_def)

lemma mod4_shift: "i + 4 \<le> j \<Longrightarrow> (j - (i + 4)) mod 4 = (j - i) mod (4::nat)"
proof -
  assume "i + 4 \<le> j"
  then have "j - i = (j - (i + 4)) + 4" by linarith
  then show ?thesis by (metis mod_add_self2)
qed

lemma mask_loop_nth:
  "j < length data \<Longrightarrow>
   mask_loop r g b i data ! j =
     (if i \<le> j \<and> (j - i) mod 4 = 3 \<and> mask_cond r g b data (j - 3) then 0 else data ! j)"
proof (induction r g b i data rule: mask_loop.induct)
  case (1 r g b i data)
  show ?case
  proof (cases "i < length data")
    case False
    with "1.prems" show ?thesis by (subst mask_loop.simps) simp
  next
    case True
    let ?d = "if mask_cond r g b data i then wr data (int i + 3) 0 else data"
    have len: "j < length ?d" using "1.prems" by simp
    have step: "mask_loop r g b i data ! j = mask_loop r g b (i + 4) ?d ! j"
      using True by (subst mask_loop.simps) simp
    have ih: "mask_loop r g b (i + 4) ?d ! j =
        (if i + 4 \<le> j \<and> (j - (i + 4)) mod 4 = 3 \<and> mask_cond r g b ?d (j - 3) then 0 else ?d ! j)"
      using "1.IH" [OF True len] .
    have "int i + 3 = int (i + 3)" by simp
    then have wr3: "wr data (int i + 3) 0 ! j = (if j = i + 3 then 0 else data ! j)"
      using nth_wr [of j data "i + 3" 0] "1.prems" by presburger
    have dj: "?d ! j = (if j = i + 3 \<and> mask_cond r g b data i then 0 else data ! j)"
    proof (cases "mask_cond r g b data i")
      case True
      then have "?d ! j = wr data (int i + 3) 0 ! j" by simp
      also have "\<dots> = (if j = i + 3 then 0 else data ! j)" by (rule wr3)
      finally show ?thesis using True by simp
    next
      case False
      then show ?thesis by simp
    qed
    consider (a) "j < i" | (b) "j = i + 3" | (c) "i \<le> j" "j < i + 3" | (d) "i + 4 \<le> j"
      by linarith
    then show ?thesis
    proof cases
      case a
      then show ?thesis unfolding step ih dj by simp
    next
      case b
      then show ?thesis unfolding step ih dj by simp
    next
      case c
      then have "j - i < 3" by linarith
      then have "(j - i) mod 4 \<noteq> 3" by simp
      with c show ?thesis unfolding step ih dj by simp
    next
      case d
      have m4: "(j - (i + 4)) mod 4 = (j - i) mod 4" using d by (rule mod4_shift)
      show ?thesis
      proof (cases "(j - i) mod 4 = 3")
        case False
        with d m4 show ?thesis unfolding step ih dj by simp
      next
        case t: True
        have "j - i \<noteq> 4 \<and> j - i \<noteq> 5 \<and> j - i \<noteq> 6" using t by auto
        with d have k: "i + 4 \<le> j - 3" by linarith
        have "mask_cond r g b ?d (j - 3) = mask_cond r g b data (j - 3)"
          using mask_cond_wr_below [OF k] by simp
        with t d m4 k show ?thesis unfolding step ih dj by simp
      qed
    qed
  qed
qed

lemma pixel_index_less:
  assumes "in_bounds width height p"
  shows "pixel_index width p < width * height"
proof -
  obtain x y where p: "p = (x, y)" by (cases p)
  from assms p have x: "0 \<le> x" "x < int width" and y: "0 \<le> y" "y < int height"
    by (simp_all add: in_bounds_def)
  define a where "a = nat x"
  define c where "c = nat y"
  have xa: "x = int a" and yc: "y = int c" using x y by (simp_all add: a_def c_def)
  have a: "a < width" and c: "c < height" using x y xa yc by simp_all
  have "c * width + a < Suc c * width" using a by simp
  also have "\<dots> \<le> height * width" using c by (intro mult_le_mono1) simp
  finally have "c * width + a < width * height" by (simp add: mult.commute)
  moreover have "pixel_index width p = c * width + a"
    unfolding pixel_index_def p xa yc by (simp add: nat_add_distrib nat_mult_distrib)
  ultimately show ?thesis by simp
qed

lemma byte_offset:
  assumes "in_bounds width height (x, y)"
  shows "(y * int width + x) * 4 = int (4 * pixel_index width (x, y))"
proof -
  from assms have "0 \<le> y * int width + x" by (simp add: in_bounds_def)
  then show ?thesis by (simp add: pixel_index_def)
qed

lemma rd_in: "i < length data \<Longrightarrow> rd data (int i) = Some (data ! i)"
  by (simp add: rd_def)

lemma rd_in_plus:
  "i + k < length data \<Longrightarrow> rd data (int i + int k) = Some (data ! (i + k))"
  using rd_in [of "i + k" data] by simp

lemma uint_pos_iff: "0 < uint (w :: byte) \<longleftrightarrow> w \<noteq> 0"
proof -
  have "0 \<le> uint w" by simp
  moreover have "uint w = 0 \<longleftrightarrow> w = 0" by (rule uint_0_iff)
  ultimately show ?thesis by linarith
qed

lemma mask_cond_pixel:
  assumes "4 * i + 3 < length data" "4 * s + 3 < length data"
  shows "mask_cond (rd data (int (4 * s))) (rd data (int (4 * s) + 1)) (rd data (int (4 * s) + 2))
           data (4 * i) =
         (within_tolerance (get_pixel data i) (get_pixel data s) \<and> alpha (get_pixel data i) \<noteq> 0)"
proof -
  have r: "rd data (int (4 * i)) = Some (data ! (4 * i))"
    "rd data (int (4 * i) + 1) = Some (data ! (4 * i + 1))"
    "rd data (int (4 * i) + 2) = Some (data ! (4 * i + 2))"
    "rd data (int (4 * i) + 3) = Some (data ! (4 * i + 3))"
    using assms(1) rd_in [of "4 * i" data] rd_in_plus [of "4 * i" 1 data]
      rd_in_plus [of "4 * i" 2 data] rd_in_plus [of "4 * i" 3 data] by simp_all
  have t: "rd data (int (4 * s)) = Some (data ! (4 * s))"
    "rd data (int (4 * s) + 1) = Some (data ! (4 * s + 1))"
    "rd data (int (4 * s) + 2) = Some (data ! (4 * s + 2))"
    using assms(2) rd_in [of "4 * s" data] rd_in_plus [of "4 * s" 1 data]
      rd_in_plus [of "4 * s" 2 data] by simp_all
  show ?thesis
    unfolding mask_cond_def r t
    by (simp add: close_to_def positive_def tolerance_def within_tolerance_def get_pixel_def
        red_def green_def blue_def alpha_def uint_pos_iff)
qed

lemma get_pixel_mask_loop:
  assumes "4 * i + 3 < length data"
  shows "get_pixel (mask_loop r g b 0 data) i =
     (if mask_cond r g b data (4 * i) then transparent (get_pixel data i) else get_pixel data i)"
proof -
  have n: "\<And>k. k < 3 \<Longrightarrow> mask_loop r g b 0 data ! (4 * i + k) = data ! (4 * i + k)"
  proof -
    fix k :: nat assume "k < 3"
    then have "(4 * i + k) mod 4 \<noteq> 3" by presburger
    moreover have "4 * i + k < length data" using assms \<open>k < 3\<close> by simp
    ultimately show "mask_loop r g b 0 data ! (4 * i + k) = data ! (4 * i + k)"
      by (simp add: mask_loop_nth)
  qed
  have "(4 * i + 3) mod 4 = 3" by presburger
  then have a: "mask_loop r g b 0 data ! (4 * i + 3) =
      (if mask_cond r g b data (4 * i) then 0 else data ! (4 * i + 3))"
    using assms by (simp add: mask_loop_nth)
  from n [of 0] n [of 1] n [of 2] a show ?thesis
    by (simp add: get_pixel_def transparent_def red_def green_def blue_def)
qed

lemma removeColor_in_bounds:
  assumes len: "length data = 4 * width * height"
    and inb: "in_bounds width height (startX, startY)"
    and a: "alpha (pixel_at data width (startX, startY)) \<noteq> 0"
  shows "removeColor width height data startX startY =
     Returns (mask_loop (rd data (int (4 * pixel_index width (startX, startY))))
                        (rd data (int (4 * pixel_index width (startX, startY)) + 1))
                        (rd data (int (4 * pixel_index width (startX, startY)) + 2)) 0 data)"
proof -
  let ?s = "pixel_index width (startX, startY)"
  have s: "4 * ?s + 3 < length data"
    using pixel_index_less [OF inb] len by simp
  have off: "(startY * int width + startX) * 4 = int (4 * ?s)"
    using inb by (rule byte_offset)
  have "rd data (int (4 * ?s) + 3) = Some (data ! (4 * ?s + 3))"
    using rd_in_plus [of "4 * ?s" 3 data] s by simp
  moreover have "data ! (4 * ?s + 3) \<noteq> 0"
    using a by (simp add: pixel_at_def get_pixel_def alpha_def)
  ultimately show ?thesis
    unfolding removeColor_def off by (simp add: Let_def)
qed

lemma mask_loop_undefined: "mask_loop None g b i data = data"
proof (induction "None :: byte option" g b i data rule: mask_loop.induct)
  case (1 g b i data)
  have "\<not> mask_cond None g b data i" by (simp add: mask_cond_def close_to_def split: option.splits)
  then show ?case using 1 by (subst mask_loop.simps) simp
qed

lemma removeColor_frame:
  "\<exists>d'. removeColor width height data startX startY = Returns d' \<and>
     length d' = length data \<and>
     (\<forall>i. 4 * i + 3 < length data \<longrightarrow>
        red (get_pixel d' i) = red (get_pixel data i) \<and>
        green (get_pixel d' i) = green (get_pixel data i) \<and>
        blue (get_pixel d' i) = blue (get_pixel data i) \<and>
        (alpha (get_pixel data i) = 0 \<longrightarrow> get_pixel d' i = get_pixel data i)) \<and>
     (length data = 4 * width * height \<and> in_bounds width height (startX, startY) \<and>
      alpha (pixel_at data width (startX, startY)) = 0 \<longrightarrow> d' = data)"
proof (cases "rd data ((startY * int width + startX) * 4 + 3) = Some 0")
  case True
  then have "removeColor width height data startX startY = Returns data"
    by (simp add: removeColor_def Let_def)
  then show ?thesis by simp
next
  case False
  let ?t = "(startY * int width + startX) * 4"
  let ?d = "mask_loop (rd data ?t) (rd data (?t + 1)) (rd data (?t + 2)) 0 data"
  have ret: "removeColor width height data startX startY = Returns ?d"
    using False by (simp add: removeColor_def Let_def)
  have px: "red (get_pixel ?d i) = red (get_pixel data i) \<and>
        green (get_pixel ?d i) = green (get_pixel data i) \<and>
        blue (get_pixel ?d i) = blue (get_pixel data i) \<and>
        (alpha (get_pixel data i) = 0 \<longrightarrow> get_pixel ?d i = get_pixel data i)"
    if "4 * i + 3 < length data" for i
    unfolding get_pixel_mask_loop [OF that]
    by (simp add: transparent_def red_def green_def blue_def alpha_def prod_eq_iff)
  have seed: "\<not> (length data = 4 * width * height \<and> in_bounds width height (startX, startY) \<and>
      alpha (pixel_at data width (startX, startY)) = 0)"
  proof
    assume h: "length data = 4 * width * height \<and> in_bounds width height (startX, startY) \<and>
      alpha (pixel_at data width (startX, startY)) = 0"
    let ?s = "pixel_index width (startX, startY)"
    have s: "4 * ?s + 3 < length data"
      using pixel_index_less [of width height "(startX, startY)"] h by simp
    have "?t = int (4 * ?s)" using h byte_offset by blast
    then have "rd data (?t + 3) = Some (data ! (4 * ?s + 3))"
      using rd_in_plus [of "4 * ?s" 3 data] s by simp
    moreover have "data ! (4 * ?s + 3) = 0"
      using h by (simp add: pixel_at_def get_pixel_def alpha_def)
    ultimately show False using False by simp
  qed
  have "\<forall>i. 4 * i + 3 < length data \<longrightarrow>
        red (get_pixel ?d i) = red (get_pixel data i) \<and>
        green (get_pixel ?d i) = green (get_pixel data i) \<and>
        blue (get_pixel ?d i) = blue (get_pixel data i) \<and>
        (alpha (get_pixel data i) = 0 \<longrightarrow> get_pixel ?d i = get_pixel data i)"
    using px by blast
  moreover have "length ?d = length data" by simp
  ultimately show ?thesis
    using ret seed by blast
qed

section \<open>Properties of floodFill\<close>

subsection \<open>From bytes to pixels\<close>

lemma matches_pixel:
  assumes "4 * i + 3 < length data"
  shows "matches data (int (4 * i)) (target_of tp) = (get_pixel data i = tp)"
proof -
  have r: "rd data (int (4 * i)) = Some (data ! (4 * i))"
    "rd data (int (4 * i) + 1) = Some (data ! (4 * i + 1))"
    "rd data (int (4 * i) + 2) = Some (data ! (4 * i + 2))"
    "rd data (int (4 * i) + 3) = Some (data ! (4 * i + 3))"
    using assms rd_in [of "4 * i" data] rd_in_plus [of "4 * i" 1 data]
      rd_in_plus [of "4 * i" 2 data] rd_in_plus [of "4 * i" 3 data] by simp_all
  show ?thesis
    unfolding matches_def target_of_def r
    by (cases tp) (auto simp: get_pixel_def red_def green_def blue_def alpha_def)
qed

lemma length_fill_pixel [simp]: "length (fill_pixel data i f) = length data"
  by (cases f) (simp add: fill_pixel_def)

lemma nth_wr_plus:
  "j < length data \<Longrightarrow> wr data (int i + int k) v ! j = (if j = i + k then v else data ! j)"
  using nth_wr [of j data "i + k" v] by simp

lemma nth_fill_pixel:
  assumes "j < length data"
  shows "fill_pixel data (int i) (a, b, c, d) ! j =
     (if j = i then to_clamped a else if j = i + 1 then to_clamped b
      else if j = i + 2 then to_clamped c else if j = i + 3 then to_clamped d else data ! j)"
proof -
  let ?d1 = "wr data (int i) (to_clamped a)"
  let ?d2 = "wr ?d1 (int i + 1) (to_clamped b)"
  let ?d3 = "wr ?d2 (int i + 2) (to_clamped c)"
  let ?d4 = "wr ?d3 (int i + 3) (to_clamped d)"
  have 1: "?d1 ! j = (if j = i then to_clamped a else data ! j)"
    using assms by (rule nth_wr)
  have 2: "?d2 ! j = (if j = i + 1 then to_clamped b else ?d1 ! j)"
    using nth_wr_plus [of j ?d1 i 1] assms by simp
  have 3: "?d3 ! j = (if j = i + 2 then to_clamped c else ?d2 ! j)"
    using nth_wr_plus [of j ?d2 i 2] assms by simp
  have 4: "?d4 ! j = (if j = i + 3 then to_clamped d else ?d3 ! j)"
    using nth_wr_plus [of j ?d3 i 3] assms by simp
  have e: "fill_pixel data (int i) (a, b, c, d) = ?d4" by (simp add: fill_pixel_def)
  show ?thesis unfolding e 4 3 2 1 by simp
qed

lemma get_pixel_fill_pixel:
  assumes "4 * j + 3 < length data"
  shows "get_pixel (fill_pixel data (int (4 * i)) f) j = (if j = i then fill_px f else get_pixel data j)"
proof -
  obtain a b c d where f: "f = (a, b, c, d)" by (cases f)
  have n: "\<And>k. k < 4 \<Longrightarrow> fill_pixel data (int (4 * i)) (a, b, c, d) ! (4 * j + k) =
     (if 4 * j + k = 4 * i then to_clamped a else if 4 * j + k = 4 * i + 1 then to_clamped b
      else if 4 * j + k = 4 * i + 2 then to_clamped c
      else if 4 * j + k = 4 * i + 3 then to_clamped d else data ! (4 * j + k))"
    using assms by (intro nth_fill_pixel) simp
  show ?thesis
  proof (cases "j = i")
    case True
    then show ?thesis
      using n [of 0] n [of 1] n [of 2] n [of 3]
      by (simp add: get_pixel_def fill_px_def f)
  next
    case False
    then have ne: "\<And>k m. k < 4 \<Longrightarrow> m < 4 \<Longrightarrow> 4 * j + k \<noteq> 4 * i + m" by presburger
    have "fill_pixel data (int (4 * i)) (a, b, c, d) ! (4 * j + k) = data ! (4 * j + k)"
      if "k < 4" for k
      using n [OF that] ne [OF that, of 0] ne [OF that, of 1] ne [OF that, of 2] ne [OF that, of 3]
      by simp
    from this [of 0] this [of 1] this [of 2] this [of 3] False show ?thesis
      by (simp add: get_pixel_def f)
  qed
qed

lemma pixel_index_inj:
  assumes "in_bounds width height p" "in_bounds width height q"
    and "pixel_index width p = pixel_index width q"
  shows "p = q"
proof -
  obtain x y where p: "p = (x, y)" by (cases p)
  obtain u v where q: "q = (u, v)" by (cases q)
  from assms(1) p have x: "0 \<le> x" "x < int width" "0 \<le> y" by (simp_all add: in_bounds_def)
  from assms(2) q have u: "0 \<le> u" "u < int width" "0 \<le> v" by (simp_all add: in_bounds_def)
  have "0 \<le> y * int width + x" "0 \<le> v * int width + u" using x u by simp_all
  with assms(3) have e: "y * int width + x = v * int width + u"
    by (simp add: pixel_index_def p q)
  have "(y * int width + x) div int width = y" using x by simp
  moreover have "(v * int width + u) div int width = v" using u by simp
  ultimately have "y = v" using e by simp
  with e have "x = u" by simp
  with \<open>y = v\<close> show ?thesis by (simp add: p q)
qed

lemma pixel_at_fill_pixel:
  assumes len: "length data = 4 * width * height"
    and p: "in_bounds width height p" and q: "in_bounds width height q"
  shows "pixel_at (fill_pixel data (int (4 * pixel_index width p)) f) width q =
     (if q = p then fill_px f else pixel_at data width q)"
proof -
  have "4 * pixel_index width q + 3 < length data"
    using pixel_index_less [OF q] len by simp
  then have "get_pixel (fill_pixel data (int (4 * pixel_index width p)) f) (pixel_index width q) =
     (if pixel_index width q = pixel_index width p then fill_px f
      else get_pixel data (pixel_index width q))"
    by (rule get_pixel_fill_pixel)
  moreover have "pixel_index width q = pixel_index width p \<longleftrightarrow> q = p"
    using pixel_index_inj [OF q p] by blast
  ultimately show ?thesis by (simp add: pixel_at_def)
qed

lemma fill_step_pixel:
  assumes len: "length data = 4 * width * height"
  shows "fill_step width height (target_of tp) f (p # rest, data) =
     (if in_bounds width height p
      then if pixel_at data width p = tp
           then (neighbours p @ rest, fill_pixel data (int (4 * pixel_index width p)) f)
           else (rest, data)
      else (rest, data))"
proof -
  obtain x y where p: "p = (x, y)" by (cases p)
  show ?thesis
  proof (cases "in_bounds width height p")
    case False
    then have "x < 0 \<or> x \<ge> int width \<or> y < 0 \<or> y \<ge> int height"
      by (auto simp: in_bounds_def p)
    then have "fill_step width height (target_of tp) f (p # rest, data) = (rest, data)"
      unfolding fill_step_def p by simp
    with False show ?thesis by simp
  next
    case True
    then have nb: "(x < 0 \<or> x \<ge> int width \<or> y < 0 \<or> y \<ge> int height) = False"
      by (auto simp: in_bounds_def p)
    have off: "(y * int width + x) * 4 = int (4 * pixel_index width (x, y))"
      using True unfolding p by (rule byte_offset)
    have i: "4 * pixel_index width (x, y) + 3 < length data"
      using pixel_index_less [OF True] len by (simp add: p)
    have m: "matches data (int (4 * pixel_index width (x, y))) (target_of tp) =
        (pixel_at data width (x, y) = tp)"
      unfolding matches_pixel [OF i] by (simp add: pixel_at_def)
    have "fill_step width height (target_of tp) f ((x, y) # rest, data) =
       (if pixel_at data width (x, y) = tp
        then ((x, y - 1) # (x, y + 1) # (x - 1, y) # (x + 1, y) # rest,
              fill_pixel data (int (4 * pixel_index width (x, y))) f)
        else (rest, data))"
      by (simp only: fill_step_def prod.case list.case nb if_False Let_def off m)
    with True show ?thesis by (simp add: neighbours_def p)
  qed
qed

subsection \<open>The invariant is kept and the measure decreases\<close>

lemma fill_invI:
  assumes "length data = length d0"
    and "\<And>a. in_bounds width height a \<Longrightarrow> pixel_at data width a \<noteq> pixel_at d0 width a \<Longrightarrow>
           pixel_at data width a = fp \<and> a \<in> component width height d0 seed"
    and "\<And>a q. in_bounds width height a \<Longrightarrow> pixel_at data width a \<noteq> pixel_at d0 width a \<Longrightarrow>
           q \<in> set (neighbours a) \<Longrightarrow> in_bounds width height q \<Longrightarrow>
           pixel_at data width q = pixel_at d0 width seed \<Longrightarrow> q \<in> set stack"
    and "seed \<in> set stack \<or> pixel_at data width seed \<noteq> pixel_at d0 width seed"
    and "\<And>q. q \<in> set stack \<Longrightarrow> q = seed \<or>
           (\<exists>a. in_bounds width height a \<and> pixel_at data width a \<noteq> pixel_at d0 width a \<and>
                q \<in> set (neighbours a))"
  shows "fill_inv width height d0 seed fp (stack, data)"
  unfolding fill_inv_def prod.case
  using assms by blast

lemma fill_invD:
  assumes "fill_inv width height d0 seed fp (stack, data)"
  shows "length data = length d0"
    and "\<And>a. in_bounds width height a \<Longrightarrow> pixel_at data width a \<noteq> pixel_at d0 width a \<Longrightarrow>
           pixel_at data width a = fp \<and> a \<in> component width height d0 seed"
    and "\<And>a q. in_bounds width height a \<Longrightarrow> pixel_at data width a \<noteq> pixel_at d0 width a \<Longrightarrow>
           q \<in> set (neighbours a) \<Longrightarrow> in_bounds width height q \<Longrightarrow>
           pixel_at data width q = pixel_at d0 width seed \<Longrightarrow> q \<in> set stack"
    and "seed \<in> set stack \<or> pixel_at data width seed \<noteq> pixel_at d0 width seed"
    and "\<And>q. q \<in> set stack \<Longrightarrow> q = seed \<or>
           (\<exists>a. in_bounds width height a \<and> pixel_at data width a \<noteq> pixel_at d0 width a \<and>
                q \<in> set (neighbours a))"
  using assms unfolding fill_inv_def prod.case by blast+

lemma component_in_bounds:
  "p \<in> component width height data seed \<Longrightarrow> in_bounds width height p"
  by (induction rule: component.induct) simp_all

lemma component_colour:
  "p \<in> component width height data seed \<Longrightarrow> pixel_at data width p = pixel_at data width seed"
  by (induction rule: component.induct) simp_all

lemma fill_inv_init:
  "in_bounds width height seed \<Longrightarrow> fill_inv width height d0 seed fp ([seed], d0)"
  by (rule fill_invI) simp_all

lemma fill_inv_step:
  assumes len0: "length d0 = 4 * width * height"
    and seed: "in_bounds width height seed"
    and ne: "fill_px f \<noteq> pixel_at d0 width seed"
    and inv: "fill_inv width height d0 seed (fill_px f) (p # rest, data)"
  shows "fill_inv width height d0 seed (fill_px f)
           (fill_step width height (target_of (pixel_at d0 width seed)) f (p # rest, data))"
proof -
  let ?tp = "pixel_at d0 width seed"
  let ?fp = "fill_px f"
  let ?C = "component width height d0 seed"
  note I = fill_invD [OF inv]
  have len: "length data = 4 * width * height" using I(1) len0 by simp
  note st = fill_step_pixel [OF len, of ?tp f p rest]
  consider (out) "\<not> in_bounds width height p"
    | (miss) "in_bounds width height p" "pixel_at data width p \<noteq> ?tp"
    | (hit) "in_bounds width height p" "pixel_at data width p = ?tp"
    by blast
  then show ?thesis
  proof cases
    case out
    then have s: "fill_step width height (target_of ?tp) f (p # rest, data) = (rest, data)"
      using st by simp
    show ?thesis unfolding s
    proof (rule fill_invI)
      show "length data = length d0" by (rule I(1))
    next
      fix a assume "in_bounds width height a" "pixel_at data width a \<noteq> pixel_at d0 width a"
      then show "pixel_at data width a = ?fp \<and> a \<in> ?C" by (rule I(2))
    next
      fix a q assume a: "in_bounds width height a" "pixel_at data width a \<noteq> pixel_at d0 width a"
        "q \<in> set (neighbours a)" "in_bounds width height q" "pixel_at data width q = ?tp"
      then have "q \<in> set (p # rest)" by (rule I(3))
      moreover have "q \<noteq> p" using a(4) out by blast
      ultimately show "q \<in> set rest" by simp
    next
      have "seed \<noteq> p" using seed out by blast
      then show "seed \<in> set rest \<or> pixel_at data width seed \<noteq> ?tp" using I(4) by auto
    next
      fix q assume "q \<in> set rest"
      then have "q \<in> set (p # rest)" by simp
      then show "q = seed \<or> (\<exists>a. in_bounds width height a \<and>
          pixel_at data width a \<noteq> pixel_at d0 width a \<and> q \<in> set (neighbours a))"
        by (rule I(5))
    qed
  next
    case miss
    then have s: "fill_step width height (target_of ?tp) f (p # rest, data) = (rest, data)"
      using st by simp
    show ?thesis unfolding s
    proof (rule fill_invI)
      show "length data = length d0" by (rule I(1))
    next
      fix a assume "in_bounds width height a" "pixel_at data width a \<noteq> pixel_at d0 width a"
      then show "pixel_at data width a = ?fp \<and> a \<in> ?C" by (rule I(2))
    next
      fix a q assume a: "in_bounds width height a" "pixel_at data width a \<noteq> pixel_at d0 width a"
        "q \<in> set (neighbours a)" "in_bounds width height q" "pixel_at data width q = ?tp"
      then have "q \<in> set (p # rest)" by (rule I(3))
      moreover have "q \<noteq> p" using a(5) miss(2) by blast
      ultimately show "q \<in> set rest" by simp
    next
      show "seed \<in> set rest \<or> pixel_at data width seed \<noteq> ?tp"
        using I(4) miss(2) by auto
    next
      fix q assume "q \<in> set rest"
      then have "q \<in> set (p # rest)" by simp
      then show "q = seed \<or> (\<exists>a. in_bounds width height a \<and>
          pixel_at data width a \<noteq> pixel_at d0 width a \<and> q \<in> set (neighbours a))"
        by (rule I(5))
    qed
  next
    case hit
    let ?d = "fill_pixel data (int (4 * pixel_index width p)) f"
    have s: "fill_step width height (target_of ?tp) f (p # rest, data) = (neighbours p @ rest, ?d)"
      using st hit by simp
    have px: "pixel_at ?d width q = (if q = p then ?fp else pixel_at data width q)"
      if "in_bounds width height q" for q
      using len hit(1) that by (rule pixel_at_fill_pixel)
    have d0p: "pixel_at d0 width p = ?tp"
    proof (rule ccontr)
      assume "pixel_at d0 width p \<noteq> ?tp"
      then have "pixel_at data width p \<noteq> pixel_at d0 width p" using hit(2) by simp
      then have "pixel_at data width p = ?fp" using I(2) [OF hit(1)] by blast
      then show False using hit(2) ne by simp
    qed
    have pC: "p \<in> ?C"
    proof -
      have "p \<in> set (p # rest)" by simp
      then consider "p = seed"
        | a where "in_bounds width height a" "pixel_at data width a \<noteq> pixel_at d0 width a"
            "p \<in> set (neighbours a)"
        using I(5) by blast
      then show ?thesis
      proof cases
        case 1
        then show ?thesis using seed by (simp add: component.seed)
      next
        case 2
        then have "a \<in> ?C" using I(2) by blast
        then show ?thesis using 2(3) hit(1) d0p by (rule component.step)
      qed
    qed
    have newp: "pixel_at ?d width p \<noteq> pixel_at d0 width p"
      using px [OF hit(1)] d0p ne by simp
    show ?thesis unfolding s
    proof (rule fill_invI)
      show "length ?d = length d0" using I(1) by simp
    next
      fix a assume a: "in_bounds width height a" "pixel_at ?d width a \<noteq> pixel_at d0 width a"
      show "pixel_at ?d width a = ?fp \<and> a \<in> ?C"
      proof (cases "a = p")
        case True
        then show ?thesis using px [OF hit(1)] pC by simp
      next
        case False
        then have "pixel_at ?d width a = pixel_at data width a" using px [OF a(1)] by simp
        then show ?thesis using I(2) [OF a(1)] a(2) by simp
      qed
    next
      fix a q assume a: "in_bounds width height a" "pixel_at ?d width a \<noteq> pixel_at d0 width a"
        "q \<in> set (neighbours a)" "in_bounds width height q" "pixel_at ?d width q = ?tp"
      have qp: "q \<noteq> p" using a(5) px [OF hit(1)] ne by auto
      then have dq: "pixel_at data width q = ?tp" using a(5) px [OF a(4)] by simp
      show "q \<in> set (neighbours p @ rest)"
      proof (cases "a = p")
        case True
        then show ?thesis using a(3) by simp
      next
        case False
        then have "pixel_at data width a \<noteq> pixel_at d0 width a" using a(2) px [OF a(1)] by simp
        then have "q \<in> set (p # rest)" using I(3) [OF a(1) _ a(3) a(4) dq] by blast
        then show ?thesis using qp by simp
      qed
    next
      show "seed \<in> set (neighbours p @ rest) \<or> pixel_at ?d width seed \<noteq> ?tp"
      proof (cases "seed = p")
        case True
        then show ?thesis using newp by blast
      next
        case False
        then have "pixel_at ?d width seed = pixel_at data width seed" using px [OF seed] by simp
        moreover have "seed \<in> set rest \<or> pixel_at data width seed \<noteq> ?tp"
          using I(4) False by simp
        ultimately show ?thesis by auto
      qed
    next
      fix q assume q: "q \<in> set (neighbours p @ rest)"
      show "q = seed \<or> (\<exists>a. in_bounds width height a \<and>
          pixel_at ?d width a \<noteq> pixel_at d0 width a \<and> q \<in> set (neighbours a))"
      proof (cases "q \<in> set (neighbours p)")
        case True
        then show ?thesis using hit(1) newp by blast
      next
        case False
        then have "q \<in> set (p # rest)" using q by simp
        then consider "q = seed"
          | a where "in_bounds width height a" "pixel_at data width a \<noteq> pixel_at d0 width a"
              "q \<in> set (neighbours a)"
          using I(5) by blast
        then show ?thesis
        proof cases
          case 1
          then show ?thesis by simp
        next
          case 2
          then have "a \<noteq> p" using hit(2) d0p by metis
          then have "pixel_at ?d width a = pixel_at data width a" using px [OF 2(1)] by simp
          then have "pixel_at ?d width a \<noteq> pixel_at d0 width a" using 2(2) by simp
          then show ?thesis using 2(1) 2(3) by blast
        qed
      qed
    qed
  qed
qed

lemma fill_measure_step:
  assumes len: "length data = 4 * width * height"
    and ne: "fill_px f \<noteq> tp"
  shows "fill_measure width height tp (fill_step width height (target_of tp) f (p # rest, data))
       < fill_measure width height tp (p # rest, data)"
proof (cases "in_bounds width height p \<and> pixel_at data width p = tp")
  case False
  then have "fill_step width height (target_of tp) f (p # rest, data) = (rest, data)"
    using fill_step_pixel [OF len, of tp f p rest] by auto
  then show ?thesis by (simp add: fill_measure_def)
next
  case True
  let ?i = "pixel_index width p"
  let ?d = "fill_pixel data (int (4 * ?i)) f"
  let ?A = "{j. j < width * height \<and> get_pixel data j = tp}"
  let ?B = "{j. j < width * height \<and> get_pixel ?d j = tp}"
  have s: "fill_step width height (target_of tp) f (p # rest, data) = (neighbours p @ rest, ?d)"
    using fill_step_pixel [OF len, of tp f p rest] True by simp
  have i: "?i < width * height" using True pixel_index_less by blast
  have iA: "?i \<in> ?A" using True i by (simp add: pixel_at_def)
  have fin: "finite ?A" by simp
  have "get_pixel ?d j = (if j = ?i then fill_px f else get_pixel data j)"
    if "j < width * height" for j
    using that len by (intro get_pixel_fill_pixel) simp
  then have "?B = ?A - {?i}" using ne by auto
  then have "card ?B = card ?A - 1" using iA fin by simp
  moreover have "0 < card ?A" using iA fin card_gt_0_iff by blast
  ultimately have "5 * card ?B + 5 = 5 * card ?A" by simp
  then show ?thesis
    unfolding s by (simp add: fill_measure_def todo_def neighbours_def)
qed

lemma fill_loop_inv:
  assumes len0: "length d0 = 4 * width * height"
    and seed: "in_bounds width height seed"
    and ne: "fill_px f \<noteq> pixel_at d0 width seed"
    and inv: "fill_inv width height d0 seed (fill_px f) (stack, data)"
  shows "\<exists>d'. fill_loop width height (target_of (pixel_at d0 width seed)) f stack data = Some d' \<and>
           fill_inv width height d0 seed (fill_px f) ([], d')"
  using inv
proof (induction "fill_measure width height (pixel_at d0 width seed) (stack, data)"
    arbitrary: stack data rule: less_induct)
  case less
  let ?t = "target_of (pixel_at d0 width seed)"
  show ?case
  proof (cases stack)
    case Nil
    then have "fill_loop width height ?t f stack data = Some data"
      by (subst fill_loop.simps) simp
    then show ?thesis using less.prems Nil by simp
  next
    case (Cons p rest)
    obtain stack' data' where s: "fill_step width height ?t f (p # rest, data) = (stack', data')"
      by (cases "fill_step width height ?t f (p # rest, data)")
    have inv: "fill_inv width height d0 seed (fill_px f) (p # rest, data)"
      using less.prems Cons by simp
    have len: "length data = 4 * width * height"
      using fill_invD(1) [OF inv] len0 by simp
    have inv': "fill_inv width height d0 seed (fill_px f) (stack', data')"
      using fill_inv_step [OF len0 seed ne inv] s by simp
    have "fill_measure width height (pixel_at d0 width seed) (stack', data')
        < fill_measure width height (pixel_at d0 width seed) (stack, data)"
      using fill_measure_step [OF len ne, of p rest] s Cons by simp
    then have "\<exists>d'. fill_loop width height ?t f stack' data' = Some d' \<and>
        fill_inv width height d0 seed (fill_px f) ([], d')"
      using inv' by (rule less.hyps)
    moreover have "fill_loop width height ?t f stack data = fill_loop width height ?t f stack' data'"
      by (subst fill_loop.simps) (simp add: Cons s)
    ultimately show ?thesis by simp
  qed
qed

lemma fill_inv_final:
  assumes seed: "in_bounds width height seed"
    and ne: "fp \<noteq> pixel_at d0 width seed"
    and inv: "fill_inv width height d0 seed fp ([], d')"
    and p: "in_bounds width height p"
  shows "pixel_at d' width p = (if p \<in> component width height d0 seed then fp else pixel_at d0 width p)"
proof -
  note I = fill_invD [OF inv]
  have filled: "pixel_at d' width q \<noteq> pixel_at d0 width q"
    if "q \<in> component width height d0 seed" for q
    using that
  proof (induction rule: component.induct)
    case seed
    then show ?case using I(4) by simp
  next
    case (step a q)
    show ?case
    proof
      assume e: "pixel_at d' width q = pixel_at d0 width q"
      have "in_bounds width height a" using step.hyps(1) by (rule component_in_bounds)
      then have "q \<in> set []"
        using step.IH step.hyps(2) step.hyps(3) e step.hyps(4) by (intro I(3) [of a q]) simp_all
      then show False by simp
    qed
  qed
  show ?thesis
  proof (cases "p \<in> component width height d0 seed")
    case True
    then show ?thesis using filled [OF True] I(2) [OF p] by simp
  next
    case False
    then show ?thesis using I(2) [OF p] by auto
  qed
qed

subsection \<open>The colour string and the call as a whole\<close>

lemma hexDigit_less: "hexDigit c = Some d \<Longrightarrow> d < 16"
  by (auto simp: hexDigit_def Let_def split: if_splits)

lemma parseInt16_two:
  assumes "hexDigit c \<noteq> None" "hexDigit e \<noteq> None"
  shows "\<exists>n. parseInt16 [c, e] = Some n \<and> n < 256"
proof -
  from assms obtain u v where u: "hexDigit c = Some u" and v: "hexDigit e = Some v" by auto
  have "u < 16" "v < 16" using u v hexDigit_less by blast+
  then have "16 * u + v < 256" by simp
  moreover have "parseInt16 [c, e] = Some (16 * u + v)"
    by (simp add: parseInt16_def u v)
  ultimately show ?thesis by simp
qed

lemma list6: "length ds = 6 \<Longrightarrow> \<exists>a b c d e f. ds = [a, b, c, d, e, f]"
  by (auto simp: numeral_eq_Suc length_Suc_conv)

lemma hexToRgb_hex_color:
  assumes "is_hex_color color"
  shows "\<exists>nr ng nb. hexToRgb color = (Some nr, Some ng, Some nb) \<and> nr < 256 \<and> ng < 256 \<and> nb < 256"
proof -
  from assms obtain h ds where c: "color = h # ds" and l: "length ds = 6"
    and hx: "list_all (\<lambda>d. hexDigit d \<noteq> None) ds"
    by (auto simp: is_hex_color_def split: list.splits)
  from list6 [OF l] obtain a b c' d e f where ds: "ds = [a, b, c', d, e, f]" by blast
  have s: "slice color 1 3 = [a, b]" "slice color 3 5 = [c', d]" "slice color 5 7 = [e, f]"
    by (simp_all add: slice_def c ds numeral_eq_Suc)
  from hx ds have d: "hexDigit a \<noteq> None" "hexDigit b \<noteq> None" "hexDigit c' \<noteq> None"
    "hexDigit d \<noteq> None" "hexDigit e \<noteq> None" "hexDigit f \<noteq> None" by simp_all
  from parseInt16_two [OF d(1,2)] parseInt16_two [OF d(3,4)] parseInt16_two [OF d(5,6)]
  show ?thesis unfolding hexToRgb_def s by auto
qed

lemma unat_eq_of_nat: "n < 256 \<Longrightarrow> (unat (a :: byte) = n) = (a = of_nat n)"
proof
  assume "n < 256" "unat a = n"
  then show "a = of_nat n" by auto
next
  assume "n < 256" "a = of_nat n"
  then show "unat a = n" by (simp add: unat_of_nat)
qed

lemma strict_eq_clamped:
  "n < 256 \<Longrightarrow> strict_eq (Some a) (Some n) = (a = to_clamped (Some n))"
  by (simp add: strict_eq_def to_clamped_def unat_eq_of_nat)

lemma read_target:
  assumes "4 * i + 3 < length data"
  shows "(rd data (int (4 * i)), rd data (int (4 * i) + 1), rd data (int (4 * i) + 2),
          rd data (int (4 * i) + 3)) = target_of (get_pixel data i)"
proof -
  have r: "rd data (int (4 * i)) = Some (data ! (4 * i))"
    "rd data (int (4 * i) + 1) = Some (data ! (4 * i + 1))"
    "rd data (int (4 * i) + 2) = Some (data ! (4 * i + 2))"
    "rd data (int (4 * i) + 3) = Some (data ! (4 * i + 3))"
    using assms rd_in [of "4 * i" data] rd_in_plus [of "4 * i" 1 data]
      rd_in_plus [of "4 * i" 2 data] rd_in_plus [of "4 * i" 3 data] by simp_all
  show ?thesis unfolding r
    by (simp add: target_of_def get_pixel_def red_def green_def blue_def alpha_def)
qed

lemma floodFill_unfold:
  assumes col: "is_hex_color color"
    and len: "length data = 4 * width * height"
    and seed: "in_bounds width height (startX, startY)"
  shows "floodFill width height color data startX startY =
     (if pixel_at data width (startX, startY) = newColor color then Returns data
      else (case fill_loop width height (target_of (pixel_at data width (startX, startY)))
                  (fst (hexToRgb color), fst (snd (hexToRgb color)), snd (snd (hexToRgb color)), Some 255)
                  [(startX, startY)] data of
              None \<Rightarrow> Diverges | Some data' \<Rightarrow> Returns data'))"
proof -
  let ?s = "pixel_index width (startX, startY)"
  let ?tp = "pixel_at data width (startX, startY)"
  have s: "4 * ?s + 3 < length data" using pixel_index_less [OF seed] len by simp
  have off: "(startY * int width + startX) * 4 = int (4 * ?s)" using seed by (rule byte_offset)
  from hexToRgb_hex_color [OF col] obtain nr ng nb
    where h: "hexToRgb color = (Some nr, Some ng, Some nb)" and n: "nr < 256" "ng < 256" "nb < 256"
    by blast
  have t: "(rd data (int (4 * ?s)), rd data (int (4 * ?s) + 1), rd data (int (4 * ?s) + 2),
          rd data (int (4 * ?s) + 3)) = target_of ?tp"
    unfolding pixel_at_def using s by (rule read_target)
  then have t4: "rd data (int (4 * ?s)) = Some (red ?tp)" "rd data (int (4 * ?s) + 1) = Some (green ?tp)"
    "rd data (int (4 * ?s) + 2) = Some (blue ?tp)" "rd data (int (4 * ?s) + 3) = Some (alpha ?tp)"
    by (simp_all add: target_of_def)
  have nc: "newColor color = (to_clamped (Some nr), to_clamped (Some ng), to_clamped (Some nb), 255)"
    by (simp add: newColor_def h fill_px_def to_clamped_def)
  have c255: "strict_eq (Some (alpha ?tp)) (Some 255) = (alpha ?tp = 255)"
    using strict_eq_clamped [of 255 "alpha ?tp"] by (simp add: to_clamped_def)
  have cond: "(strict_eq (Some (red ?tp)) (Some nr) \<and> strict_eq (Some (green ?tp)) (Some ng) \<and>
      strict_eq (Some (blue ?tp)) (Some nb) \<and> strict_eq (Some (alpha ?tp)) (Some 255)) =
      (?tp = newColor color)"
    unfolding nc strict_eq_clamped [OF n(1)] strict_eq_clamped [OF n(2)] strict_eq_clamped [OF n(3)] c255
    by (cases ?tp) (auto simp: red_def green_def blue_def alpha_def)
  show ?thesis
    unfolding floodFill_def off Let_def t4 h fst_conv snd_conv cond
    by (simp add: target_of_def)
qed

lemma floodFill_char:
  assumes col: "is_hex_color color"
    and len: "length data = 4 * width * height"
    and seed: "in_bounds width height (startX, startY)"
  shows "\<exists>d'. floodFill width height color data startX startY = Returns d' \<and>
           length d' = length data \<and>
           (\<forall>p. in_bounds width height p \<longrightarrow>
              pixel_at d' width p =
                (if p \<in> component width height data (startX, startY) then newColor color
                 else pixel_at data width p))"
proof (cases "pixel_at data width (startX, startY) = newColor color")
  case True
  then have "floodFill width height color data startX startY = Returns data"
    using floodFill_unfold [OF assms] by simp
  moreover have "pixel_at data width p = newColor color"
    if "p \<in> component width height data (startX, startY)" for p
    using component_colour [OF that] True by simp
  ultimately show ?thesis by auto
next
  case False
  let ?f = "(fst (hexToRgb color), fst (snd (hexToRgb color)), snd (snd (hexToRgb color)), Some (255::nat))"
  have fp: "fill_px ?f = newColor color" by (simp add: newColor_def)
  have ne: "fill_px ?f \<noteq> pixel_at data width (startX, startY)" using False fp by simp
  have "fill_inv width height data (startX, startY) (fill_px ?f) ([(startX, startY)], data)"
    using seed by (rule fill_inv_init)
  from fill_loop_inv [OF len seed ne this] obtain d'
    where l: "fill_loop width height (target_of (pixel_at data width (startX, startY))) ?f
               [(startX, startY)] data = Some d'"
      and inv: "fill_inv width height data (startX, startY) (fill_px ?f) ([], d')"
    by blast
  have r: "floodFill width height color data startX startY = Returns d'"
    using floodFill_unfold [OF assms] False l by simp
  have "pixel_at d' width p =
      (if p \<in> component width height data (startX, startY) then newColor color
       else pixel_at data width p)" if "in_bounds width height p" for p
    using fill_inv_final [OF seed ne inv that] fp by simp
  moreover have "length d' = length data" using inv by (rule fill_invD(1))
  ultimately show ?thesis using r by blast
qed

lemma alpha_newColor: "alpha (newColor color) = 255"
  by (simp add: newColor_def fill_px_def to_clamped_def alpha_def)

lemma floodFill_noop:
  assumes "is_hex_color color" "length data = 4 * width * height"
    "in_bounds width height (startX, startY)"
    "pixel_at data width (startX, startY) = newColor color"
  shows "floodFill width height color data startX startY = Returns data"
  using floodFill_unfold [OF assms(1-3)] assms(4) by simp

subsection \<open>Out-of-bounds positions\<close>

lemma fill_step_out:
  "\<not> in_bounds width height q \<Longrightarrow> fill_step width height t f (q # rest, data) = (rest, data)"
  by (cases q) (auto simp: fill_step_def in_bounds_def)

lemma fill_step_stack:
  assumes "q \<in> set (fst (fill_step width height t f (p # rest, data)))"
  shows "q \<in> set rest \<or> (in_bounds width height p \<and> q \<in> set (neighbours p))"
proof (cases "in_bounds width height p")
  case False
  then show ?thesis using assms by (simp add: fill_step_out)
next
  case True
  obtain x y where p: "p = (x, y)" by (cases p)
  from True have "(x < 0 \<or> x \<ge> int width \<or> y < 0 \<or> y \<ge> int height) = False"
    by (auto simp: in_bounds_def p)
  then have "fst (fill_step width height t f (p # rest, data)) = rest \<or>
      fst (fill_step width height t f (p # rest, data)) = neighbours p @ rest"
    by (simp add: fill_step_def p Let_def neighbours_def)
  then show ?thesis using assms True by auto
qed

lemma fill_states_stack:
  assumes "s \<in> fill_states width height t f seed data"
  shows "\<forall>q \<in> set (fst s). q = seed \<or> (\<exists>p. in_bounds width height p \<and> q \<in> set (neighbours p))"
  using assms
proof (induction rule: fill_states.induct)
  case init
  show ?case by simp
next
  case (iter s)
  obtain p rest d where s: "s = (p # rest, d)"
    using iter.hyps(2) by (cases s, cases "fst s") auto
  show ?case
  proof
    fix q assume "q \<in> set (fst (fill_step width height t f s))"
    then have "q \<in> set rest \<or> (in_bounds width height p \<and> q \<in> set (neighbours p))"
      unfolding s by (rule fill_step_stack)
    then show "q = seed \<or> (\<exists>p. in_bounds width height p \<and> q \<in> set (neighbours p))"
    proof
      assume "q \<in> set rest"
      then have "q \<in> set (fst s)" by (simp add: s)
      then show ?thesis using iter.IH by blast
    next
      assume "in_bounds width height p \<and> q \<in> set (neighbours p)"
      then show ?thesis by blast
    qed
  qed
qed

lemma loop_states_example:
  "([(0, -1), (0, 1), (-1, 0), (1, 0)], [255, 0, 0, 255]) \<in> loop_states 1 1 ''#ff0000'' [0, 0, 0, 255] 0 0"
proof -
  let ?t = "(Some 0, Some 0, Some 0, Some 255) :: target"
  let ?f = "(Some 255, Some 0, Some 0, Some 255) :: fill"
  have h: "hexToRgb ''#ff0000'' = (Some 255, Some 0, Some 0)"
    by (simp add: hexToRgb_def slice_def parseInt16_def hexDigit_def)
  have ls: "loop_states 1 1 ''#ff0000'' [0, 0, 0, 255] 0 0 = fill_states 1 1 ?t ?f (0, 0) [0, 0, 0, 255]"
    by (simp add: loop_states_def Let_def h rd_def strict_eq_def)
  have "([(0, 0)], [0, 0, 0, 255]) \<in> fill_states 1 1 ?t ?f (0, 0) [0, 0, 0, 255]"
    by (rule fill_states.init)
  then have "fill_step 1 1 ?t ?f ([(0, 0)], [0, 0, 0, 255]) \<in> fill_states 1 1 ?t ?f (0, 0) [0, 0, 0, 255]"
    by (rule fill_states.iter) simp
  moreover have "fill_step 1 1 ?t ?f ([(0, 0)], [0, 0, 0, 255]) =
      ([(0, -1), (0, 1), (-1, 0), (1, 0)], [255, 0, 0, 255])"
    by (simp add: fill_step_def matches_def rd_def fill_pixel_def wr_def to_clamped_def)
  ultimately show ?thesis unfolding ls by simp
qed

lemma floodFill_out:
  assumes "\<not> in_bounds width height (startX, startY)"
  shows "floodFill width height color data startX startY = Returns data"
proof -
  have "fill_loop width height t f [(startX, startY)] data = Some data" for t f
  proof -
    have "fill_loop width height t f [(startX, startY)] data = fill_loop width height t f [] data"
      by (subst fill_loop.simps) (simp add: fill_step_out [OF assms])
    also have "\<dots> = Some data" by (subst fill_loop.simps) simp
    finally show ?thesis .
  qed
  then show ?thesis by (simp add: floodFill_def Let_def)
qed

subsection \<open>The order of the stack\<close>

lemma fill_px_fill_of: "fill_px (fill_of color) = newColor color"
  by (simp add: fill_of_def newColor_def)

lemma fill_inv_set:
  assumes "fill_inv width height d0 seed fp (stack, data)" "set stack' = set stack"
  shows "fill_inv width height d0 seed fp (stack', data)"
proof -
  have "fill_inv width height d0 seed fp (stack', data) = fill_inv width height d0 seed fp (stack, data)"
    unfolding fill_inv_def prod.case assms(2) ..
  then show ?thesis using assms(1) by simp
qed

lemma fill_states_inv:
  assumes len0: "length d0 = 4 * width * height"
    and seed: "in_bounds width height seed"
    and ne: "fill_px f \<noteq> pixel_at d0 width seed"
    and s: "s \<in> fill_states width height (target_of (pixel_at d0 width seed)) f seed d0"
  shows "fill_inv width height d0 seed (fill_px f) s"
  using s
proof (induction rule: fill_states.induct)
  case init
  show ?case using seed by (rule fill_inv_init)
next
  case (iter s)
  obtain p rest d where s: "s = (p # rest, d)"
    using iter.hyps(2) by (cases s, cases "fst s") auto
  show ?case
    using fill_inv_step [OF len0 seed ne iter.IH [unfolded s]] unfolding s .
qed

lemma pixel_position:
  assumes "i < width * height"
  shows "\<exists>p. in_bounds width height p \<and> pixel_index width p = i"
proof -
  have w: "0 < width" using assms by (cases width) simp_all
  let ?p = "(int (i mod width), int (i div width))"
  have "i div width < height"
    using assms by (simp add: less_mult_imp_div_less mult.commute)
  then have "in_bounds width height ?p" using w by (simp add: in_bounds_def)
  moreover have "pixel_index width ?p = i div width * width + i mod width"
    by (simp add: pixel_index_def nat_add_distrib nat_mult_distrib)
  then have "pixel_index width ?p = i" by simp
  ultimately show ?thesis by blast
qed

lemma buffer_eqI:
  assumes l1: "length d1 = 4 * width * height"
    and l2: "length d2 = 4 * width * height"
    and px: "\<And>p. in_bounds width height p \<Longrightarrow> pixel_at d1 width p = pixel_at d2 width p"
  shows "d1 = d2"
proof (rule nth_equalityI)
  show "length d1 = length d2" using l1 l2 by simp
next
  fix j assume "j < length d1"
  then have j: "j < 4 * (width * height)" using l1 by (simp add: mult.assoc)
  let ?i = "j div 4"
  have "?i < width * height" using j by simp
  then obtain p where p: "in_bounds width height p" "pixel_index width p = ?i"
    using pixel_position by blast
  have g: "get_pixel d1 ?i = get_pixel d2 ?i"
    using px [OF p(1)] p(2) by (simp add: pixel_at_def)
  have "j mod 4 = 0 \<or> j mod 4 = 1 \<or> j mod 4 = 2 \<or> j mod 4 = 3" by presburger
  moreover have "j = 4 * ?i + j mod 4" by simp
  ultimately have "j = 4 * ?i \<or> j = 4 * ?i + 1 \<or> j = 4 * ?i + 2 \<or> j = 4 * ?i + 3"
    by presburger
  then show "d1 ! j = d2 ! j"
    using g unfolding get_pixel_def by (metis prod.inject)
qed

lemma loop_states_unfold:
  assumes col: "is_hex_color color"
    and len: "length data = 4 * width * height"
    and seed: "in_bounds width height (startX, startY)"
  shows "loop_states width height color data startX startY =
     (if pixel_at data width (startX, startY) = newColor color then {}
      else fill_states width height (target_of (pixel_at data width (startX, startY)))
             (fill_of color) (startX, startY) data)"
proof -
  let ?s = "pixel_index width (startX, startY)"
  let ?tp = "pixel_at data width (startX, startY)"
  have s: "4 * ?s + 3 < length data" using pixel_index_less [OF seed] len by simp
  have off: "(startY * int width + startX) * 4 = int (4 * ?s)" using seed by (rule byte_offset)
  from hexToRgb_hex_color [OF col] obtain nr ng nb
    where h: "hexToRgb color = (Some nr, Some ng, Some nb)" and n: "nr < 256" "ng < 256" "nb < 256"
    by blast
  have t: "(rd data (int (4 * ?s)), rd data (int (4 * ?s) + 1), rd data (int (4 * ?s) + 2),
          rd data (int (4 * ?s) + 3)) = target_of ?tp"
    unfolding pixel_at_def using s by (rule read_target)
  then have t4: "rd data (int (4 * ?s)) = Some (red ?tp)" "rd data (int (4 * ?s) + 1) = Some (green ?tp)"
    "rd data (int (4 * ?s) + 2) = Some (blue ?tp)" "rd data (int (4 * ?s) + 3) = Some (alpha ?tp)"
    by (simp_all add: target_of_def)
  have nc: "newColor color = (to_clamped (Some nr), to_clamped (Some ng), to_clamped (Some nb), 255)"
    by (simp add: newColor_def h fill_px_def to_clamped_def)
  have c255: "strict_eq (Some (alpha ?tp)) (Some 255) = (alpha ?tp = 255)"
    using strict_eq_clamped [of 255 "alpha ?tp"] by (simp add: to_clamped_def)
  have cond: "(strict_eq (Some (red ?tp)) (Some nr) \<and> strict_eq (Some (green ?tp)) (Some ng) \<and>
      strict_eq (Some (blue ?tp)) (Some nb) \<and> strict_eq (Some (alpha ?tp)) (Some 255)) =
      (?tp = newColor color)"
    unfolding nc strict_eq_clamped [OF n(1)] strict_eq_clamped [OF n(2)] strict_eq_clamped [OF n(3)] c255
    by (cases ?tp) (auto simp: red_def green_def blue_def alpha_def)
  show ?thesis
    unfolding loop_states_def off Let_def t4 h fst_conv snd_conv cond fill_of_def
    by (simp add: target_of_def)
qed

lemma floodFill_any_order:
  assumes col: "is_hex_color color"
    and len: "length data = 4 * width * height"
    and seed: "in_bounds width height (startX, startY)"
    and r: "floodFill width height color data startX startY = Returns d'"
    and s: "(stack, d) \<in> loop_states width height color data startX startY"
    and st: "set stack' = set stack"
  shows "fill_loop width height (target_of (pixel_at data width (startX, startY))) (fill_of color)
           stack' d = Some d'"
proof -
  let ?tp = "pixel_at data width (startX, startY)"
  let ?t = "target_of ?tp"
  let ?f = "fill_of color"
  let ?sd = "(startX, startY)"
  have ne0: "?tp \<noteq> newColor color"
    using s loop_states_unfold [OF col len seed] by (auto split: if_splits)
  then have ne: "fill_px ?f \<noteq> ?tp" by (simp add: fill_px_fill_of)
  have fs: "(stack, d) \<in> fill_states width height ?t ?f ?sd data"
    using s loop_states_unfold [OF col len seed] ne0 by simp
  have inv: "fill_inv width height data ?sd (fill_px ?f) (stack', d)"
    using fill_inv_set [OF fill_states_inv [OF len seed ne fs] st] .
  from fill_loop_inv [OF len seed ne inv] obtain d2
    where l2: "fill_loop width height ?t ?f stack' d = Some d2"
      and i2: "fill_inv width height data ?sd (fill_px ?f) ([], d2)"
    by blast
  from fill_loop_inv [OF len seed ne fill_inv_init [OF seed]] obtain d1
    where l1: "fill_loop width height ?t ?f [?sd] data = Some d1"
      and i1: "fill_inv width height data ?sd (fill_px ?f) ([], d1)"
    by blast
  have "floodFill width height color data startX startY = Returns d1"
    using floodFill_unfold [OF col len seed] ne0 l1 by (simp add: fill_of_def)
  with r have d1: "d1 = d'" by simp
  have "d2 = d1"
  proof (rule buffer_eqI)
    show "length d2 = 4 * width * height" using fill_invD(1) [OF i2] len by simp
    show "length d1 = 4 * width * height" using fill_invD(1) [OF i1] len by simp
    fix p assume p: "in_bounds width height p"
    show "pixel_at d2 width p = pixel_at d1 width p"
      using fill_inv_final [OF seed ne i2 p] fill_inv_final [OF seed ne i1 p] by simp
  qed
  with l2 d1 show ?thesis by simp
qed

section \<open>Properties of handleAssembleSheet\<close>

lemma math_max_Max: "math_max x xs = Max (set (x # xs))"
  unfolding math_max_def by (rule Max.set_eq_fold [symmetric])

lemma math_ceil_div_ceiling:
  assumes "0 < c"
  shows "math_ceil_div n c = \<lceil>real_of_int n / real_of_int c\<rceil>"
proof -
  have "\<lceil>real_of_int n / real_of_int c\<rceil> = - \<lfloor>- (real_of_int n / real_of_int c)\<rfloor>"
    by (simp add: ceiling_def)
  also have "- (real_of_int n / real_of_int c) = real_of_int (- n) / real_of_int c" by simp
  also have "\<lfloor>real_of_int (- n) / real_of_int c\<rfloor> = (- n) div c"
    by (rule floor_divide_of_int_eq)
  finally show ?thesis by (simp add: math_ceil_div_def)
qed

lemma js_rem_mod: "0 \<le> a \<Longrightarrow> 0 < b \<Longrightarrow> js_rem a b = a mod b"
  by (cases "a = 0") (simp_all add: js_rem_def)

lemma load_all_length: "load_all load srcs = Some imgs \<Longrightarrow> length imgs = length srcs"
  by (induction srcs arbitrary: imgs) (auto split: option.splits)

lemma handleAssembleSheet_loaded:
  assumes ne: "sheetImages st \<noteq> []"
    and ld: "load_all load (sheetImages st) = Some imgs"
  shows "imgs \<noteq> [] \<and>
     handleAssembleSheet load True st =
       st\<lparr>generatedImage :=
            Some (ToDataURL
              \<lparr>canvas_width =
                 (if length imgs = 1 then cellW imgs
                  else sheetColumns st * cellW imgs + (sheetColumns st - 1) * sheetSpacing st),
               canvas_height =
                 (if length imgs = 1 then cellH imgs
                  else math_ceil_div (int (length imgs)) (sheetColumns st) * cellH imgs +
                       (math_ceil_div (int (length imgs)) (sheetColumns st) - 1) * sheetSpacing st),
               drawn = map (draw_call st (cellW imgs) (cellH imgs)) (enumerate 0 imgs)\<rparr>),
          isGenerating := False\<rparr>"
proof -
  have "length imgs = length (sheetImages st)" using ld by (rule load_all_length)
  with ne obtain first others where imgs: "imgs = first # others" by (cases imgs) auto
  have w: "math_max (int (img_width first)) (map (\<lambda>i. int (img_width i)) others) = cellW imgs"
    by (simp add: math_max_Max cellW_def imgs)
  have h: "math_max (int (img_height first)) (map (\<lambda>i. int (img_height i)) others) = cellH imgs"
    by (simp add: math_max_Max cellH_def imgs)
  have "handleAssembleSheet load True st =
      (let maxWidth = cellW imgs; maxHeight = cellH imgs;
           cols = sheetColumns st; spacing = sheetSpacing st;
           rows = math_ceil_div (int (length imgs)) cols;
           canvas0 = \<lparr>canvas_width = cols * maxWidth + (cols - 1) * spacing,
                      canvas_height = rows * maxHeight + (rows - 1) * spacing,
                      drawn = []\<rparr>;
           canvas1 = (if length imgs = 1
                      then canvas0\<lparr>canvas_width := maxWidth, canvas_height := maxHeight\<rparr>
                      else canvas0)
       in st\<lparr>generatedImage :=
                Some (ToDataURL
                  (canvas1\<lparr>drawn := map (draw_call st maxWidth maxHeight) (enumerate 0 imgs)\<rparr>)),
              isGenerating := False\<rparr>)"
    unfolding handleAssembleSheet_def using ne
    by (simp only: ld option.case length_0_conv if_False imgs list.case w [unfolded imgs] h [unfolded imgs]
        not_True_eq_False)
  then show ?thesis by (simp add: Let_def imgs)
qed

section \<open>The claims\<close>

text \<open>
  C1. For a buffer of \<open>width * height\<close> pixels, an in-bounds seed and a colour of the editor,
  \<^verbatim>\<open>floodFill\<close> returns, and in the buffer it hands back a pixel holds the new colour if it
  lies in the 4-connected component of the seed (positions reachable from the seed by steps
  up, down, left and right through pixels equal to the seed's pixel in all four bytes), and
  holds what it held before otherwise. The result is fixed by the component alone, and it does
  not depend on the order of the traversal: from every state the loop passes through, working
  off the entries of the stack in any other order (any stack with the same entries) ends in the
  same buffer.
\<close>

theorem floodFill_fills_component:
  assumes "is_hex_color color"
    and "length data = 4 * width * height"
    and "in_bounds width height (startX, startY)"
  shows "\<exists>d'. floodFill width height color data startX startY = Returns d' \<and>
           length d' = length data \<and>
           (\<forall>p. in_bounds width height p \<longrightarrow>
              pixel_at d' width p =
                (if p \<in> component width height data (startX, startY) then newColor color
                 else pixel_at data width p)) \<and>
           (\<forall>stack d stack'.
              (stack, d) \<in> loop_states width height color data startX startY \<and>
              set stack' = set stack \<longrightarrow>
                fill_loop width height (target_of (pixel_at data width (startX, startY)))
                  (fill_of color) stack' d = Some d')"
proof -
  from floodFill_char [OF assms] obtain d'
    where r: "floodFill width height color data startX startY = Returns d'"
      and l: "length d' = length data"
      and p: "\<forall>p. in_bounds width height p \<longrightarrow>
              pixel_at d' width p =
                (if p \<in> component width height data (startX, startY) then newColor color
                 else pixel_at data width p)"
    by (elim exE conjE)
  have "fill_loop width height (target_of (pixel_at data width (startX, startY)))
          (fill_of color) stack' d = Some d'"
    if "(stack, d) \<in> loop_states width height color data startX startY \<and> set stack' = set stack"
    for stack d stack'
    using floodFill_any_order [OF assms r] that by blast
  then show ?thesis using r l p by blast
qed

theorem floodFill_fills_component_witness:
  "\<exists>d'. floodFill 2 2 ''#ff0000'' [0, 0, 0, 255, 1, 1, 1, 255, 1, 1, 1, 255, 0, 0, 0, 255] 0 0 = Returns d' \<and>
     pixel_at d' 2 (0, 0) = (255, 0, 0, 255) \<and>
     pixel_at d' 2 (1, 0) = (1, 1, 1, 255) \<and>
     pixel_at d' 2 (0, 1) = (1, 1, 1, 255) \<and>
     pixel_at d' 2 (1, 1) = (0, 0, 0, 255)"
proof -
  let ?data = "[0, 0, 0, 255, 1, 1, 1, 255, 1, 1, 1, 255, 0, 0, 0, 255] :: byte list"
  let ?C = "component 2 2 ?data (0, 0)"
  have col: "is_hex_color ''#ff0000''" by (simp add: is_hex_color_def hexDigit_def)
  have len: "length ?data = 4 * 2 * 2" by simp
  have inb: "in_bounds 2 2 (0, 0)" "in_bounds 2 2 (1, 0)" "in_bounds 2 2 (0, 1)" "in_bounds 2 2 (1, 1)"
    by (simp_all add: in_bounds_def)
  have px: "pixel_at ?data 2 (0, 0) = (0, 0, 0, 255)" "pixel_at ?data 2 (1, 0) = (1, 1, 1, 255)"
    "pixel_at ?data 2 (0, 1) = (1, 1, 1, 255)" "pixel_at ?data 2 (1, 1) = (0, 0, 0, 255)"
    by (simp_all add: pixel_at_def pixel_index_def get_pixel_def)
  have nc: "newColor ''#ff0000'' = (255, 0, 0, 255)"
    by (simp add: newColor_def hexToRgb_def slice_def parseInt16_def hexDigit_def fill_px_def to_clamped_def)
  have only: "p = (0, 0)" if "p \<in> ?C" for p
    using that
  proof (induction rule: component.induct)
    case seed
    show ?case by simp
  next
    case (step a q)
    from step.hyps(2) step.IH have "q = (0, -1) \<or> q = (0, 1) \<or> q = (-1, 0) \<or> q = (1, 0)"
      by (auto simp: neighbours_def)
    with step.hyps(3) have "q = (0, 1) \<or> q = (1, 0)" by (auto simp: in_bounds_def)
    with step.hyps(4) show ?case using px by auto
  qed
  have c0: "(0, 0) \<in> ?C" using inb(1) by (rule component.seed)
  have c1: "(1, 0) \<notin> ?C" "(0, 1) \<notin> ?C" "(1, 1) \<notin> ?C" using only by fastforce+
  from floodFill_fills_component [OF col len inb(1)] obtain d'
    where r: "floodFill 2 2 ''#ff0000'' ?data 0 0 = Returns d'"
      and q: "\<forall>p. in_bounds 2 2 p \<longrightarrow>
         pixel_at d' 2 p = (if p \<in> ?C then newColor ''#ff0000'' else pixel_at ?data 2 p)"
    by (elim exE conjE)
  have p: "pixel_at d' 2 p = (if p \<in> ?C then newColor ''#ff0000'' else pixel_at ?data 2 p)"
    if "in_bounds 2 2 p" for p
    using q that by blast
  have "pixel_at d' 2 (0, 0) = (255, 0, 0, 255)" using p [OF inb(1)] c0 nc by simp
  moreover have "pixel_at d' 2 (1, 0) = (1, 1, 1, 255)" using p [OF inb(2)] c1(1) px(2) by simp
  moreover have "pixel_at d' 2 (0, 1) = (1, 1, 1, 255)" using p [OF inb(3)] c1(2) px(3) by simp
  moreover have "pixel_at d' 2 (1, 1) = (0, 0, 0, 255)" using p [OF inb(4)] c1(3) px(4) by simp
  ultimately show ?thesis using r by blast
qed

text \<open>
  C2. For a buffer of \<open>width * height\<close> pixels and an in-bounds seed whose alpha is not 0,
  \<^verbatim>\<open>removeColor\<close> returns, and it makes transparent (alpha 0, RGB kept) every pixel of the
  whole buffer whose red, green and blue each differ from the seed's by at most 15 and whose
  alpha is not 0; every other pixel keeps its four bytes. In particular, with a seed of colour
  (100, 100, 100), a visible pixel (114, 100, 100) is masked and a pixel (116, 100, 100) is not.
\<close>

theorem removeColor_masks_by_tolerance:
  assumes len: "length data = 4 * width * height"
    and inb: "in_bounds width height (startX, startY)"
    and a: "alpha (pixel_at data width (startX, startY)) \<noteq> 0"
  shows "\<exists>d'. removeColor width height data startX startY = Returns d' \<and>
           length d' = length data \<and>
           (\<forall>i < width * height.
              get_pixel d' i =
                (if within_tolerance (get_pixel data i) (pixel_at data width (startX, startY)) \<and>
                    alpha (get_pixel data i) \<noteq> 0
                 then transparent (get_pixel data i) else get_pixel data i)) \<and>
           (\<forall>i < width * height. \<forall>al v.
              pixel_at data width (startX, startY) = (100, 100, 100, al) \<longrightarrow>
                (get_pixel data i = (114, 100, 100, v) \<and> v \<noteq> 0 \<longrightarrow>
                   get_pixel d' i = (114, 100, 100, 0)) \<and>
                (get_pixel data i = (116, 100, 100, v) \<longrightarrow> get_pixel d' i = (116, 100, 100, v)))"
proof -
  let ?s = "pixel_index width (startX, startY)"
  let ?d = "mask_loop (rd data (int (4 * ?s))) (rd data (int (4 * ?s) + 1))
              (rd data (int (4 * ?s) + 2)) 0 data"
  have ret: "removeColor width height data startX startY = Returns ?d"
    using assms by (rule removeColor_in_bounds)
  have s: "4 * ?s + 3 < length data"
    using pixel_index_less [OF inb] len by simp
  have px: "get_pixel ?d i =
      (if within_tolerance (get_pixel data i) (pixel_at data width (startX, startY)) \<and>
          alpha (get_pixel data i) \<noteq> 0
       then transparent (get_pixel data i) else get_pixel data i)"
    if "i < width * height" for i
  proof -
    have i: "4 * i + 3 < length data" using that len by simp
    show ?thesis
      unfolding get_pixel_mask_loop [OF i] mask_cond_pixel [OF i s] pixel_at_def ..
  qed
  have ex: "(get_pixel data i = (114, 100, 100, v) \<and> v \<noteq> 0 \<longrightarrow>
               get_pixel ?d i = (114, 100, 100, 0)) \<and>
      (get_pixel data i = (116, 100, 100, v) \<longrightarrow> get_pixel ?d i = (116, 100, 100, v))"
    if "i < width * height" and t: "pixel_at data width (startX, startY) = (100, 100, 100, al)"
    for i al v
    unfolding px [OF that(1)] t
    by (simp add: within_tolerance_def transparent_def red_def green_def blue_def alpha_def)
  show ?thesis
    using ret px ex by (intro exI [of _ ?d]) simp
qed

theorem removeColor_masks_by_tolerance_witness:
  "\<exists>d'. removeColor 3 1 [100, 100, 100, 255, 114, 100, 100, 255, 116, 100, 100, 255] 0 0 = Returns d' \<and>
     get_pixel d' 0 = (100, 100, 100, 0) \<and>
     get_pixel d' 1 = (114, 100, 100, 0) \<and>
     get_pixel d' 2 = (116, 100, 100, 255)"
proof -
  let ?data = "[100, 100, 100, 255, 114, 100, 100, 255, 116, 100, 100, 255] :: byte list"
  have len: "length ?data = 4 * 3 * 1" by simp
  have inb: "in_bounds 3 1 (0, 0)" by (simp add: in_bounds_def)
  have seed: "pixel_at ?data 3 (0, 0) = (100, 100, 100, 255)"
    by (simp add: pixel_at_def pixel_index_def get_pixel_def)
  have a: "alpha (pixel_at ?data 3 (0, 0)) \<noteq> 0"
    unfolding seed by (simp add: alpha_def)
  have p0: "get_pixel ?data 0 = (100, 100, 100, 255)"
    and p1: "get_pixel ?data 1 = (114, 100, 100, 255)"
    and p2: "get_pixel ?data 2 = (116, 100, 100, 255)"
    by (simp_all add: get_pixel_def)
  from removeColor_masks_by_tolerance [OF len inb a]
  obtain d' where r: "removeColor 3 1 ?data 0 0 = Returns d'"
    and px: "\<forall>i < 3 * 1.
              get_pixel d' i =
                (if within_tolerance (get_pixel ?data i) (pixel_at ?data 3 (0, 0)) \<and>
                    alpha (get_pixel ?data i) \<noteq> 0
                 then transparent (get_pixel ?data i) else get_pixel ?data i)"
    by blast
  have "get_pixel d' 0 = (100, 100, 100, 0)"
    using px [rule_format, of 0] unfolding p0 seed
    by (simp add: within_tolerance_def transparent_def red_def green_def blue_def alpha_def)
  moreover have "get_pixel d' 1 = (114, 100, 100, 0)"
    using px [rule_format, of 1] unfolding p1 seed
    by (simp add: within_tolerance_def transparent_def red_def green_def blue_def alpha_def)
  moreover have "get_pixel d' 2 = (116, 100, 100, 255)"
    using px [rule_format, of 2] unfolding p2 seed
    by (simp add: within_tolerance_def transparent_def red_def green_def blue_def alpha_def)
  ultimately show ?thesis using r by blast
qed

text \<open>
  C3. When the list of images is not empty and every image loads, with at least one column, a
  spacing that is not negative and a sheet whose numbers stay in range (\<open>N + columns\<close> below
  \<open>2^53\<close>, where doubles are exact; \<open>columns * (cellW + spacing)\<close> and
  \<open>rows * (cellH + spacing)\<close> below \<open>2^31\<close>, the limit of a canvas's width and height), the
  canvas of \<^verbatim>\<open>handleAssembleSheet\<close> is
  \<open>columns * cellW + (columns - 1) * spacing\<close> wide and \<open>rows * cellH + (rows - 1) * spacing\<close>
  high, where \<open>cellW\<close> and \<open>cellH\<close> are the largest width and height of the images and
  \<open>rows\<close> is \<open>N / columns\<close> rounded up; for exactly one image it is \<open>cellW\<close> by \<open>cellH\<close>.
\<close>

theorem assemble_canvas_size:
  assumes ne: "sheetImages st \<noteq> []"
    and ld: "load_all load (sheetImages st) = Some imgs"
    and cols: "1 \<le> sheetColumns st"
    and sp: "0 \<le> sheetSpacing st"
    and count: "int (length imgs) + sheetColumns st < 2 ^ 53"
    and wide: "sheetColumns st * (cellW imgs + sheetSpacing st) < 2 ^ 31"
    and high: "\<lceil>real (length imgs) / real_of_int (sheetColumns st)\<rceil> *
                 (cellH imgs + sheetSpacing st) < 2 ^ 31"
  shows "\<exists>c. generatedImage (handleAssembleSheet load True st) = Some (ToDataURL c) \<and>
           length imgs = length (sheetImages st) \<and>
           canvas_width c =
             (if length imgs = 1 then cellW imgs
              else sheetColumns st * cellW imgs + (sheetColumns st - 1) * sheetSpacing st) \<and>
           canvas_height c =
             (if length imgs = 1 then cellH imgs
              else \<lceil>real (length imgs) / real_of_int (sheetColumns st)\<rceil> * cellH imgs +
                   (\<lceil>real (length imgs) / real_of_int (sheetColumns st)\<rceil> - 1) * sheetSpacing st)"
proof -
  have c: "math_ceil_div (int (length imgs)) (sheetColumns st) =
      \<lceil>real (length imgs) / real_of_int (sheetColumns st)\<rceil>"
    using math_ceil_div_ceiling [of "sheetColumns st" "int (length imgs)"] cols by simp
  have "length imgs = length (sheetImages st)" using ld by (rule load_all_length)
  then show ?thesis
    using handleAssembleSheet_loaded [OF ne ld] c by simp
qed

theorem assemble_canvas_size_witness:
  "(\<exists>c. generatedImage (handleAssembleSheet (\<lambda>s. Some \<lparr>img_width = 16, img_height = 16\<rparr>) True
        \<lparr>sheetImages = [''a'', ''b'', ''c'', ''d'', ''e''], sheetColumns = 3, sheetSpacing = 2,
         sheetVerticalAlignment = Bottom, sheetHorizontalAlignment = Center,
         generatedImage = None, isGenerating = False, error = None\<rparr>) = Some (ToDataURL c) \<and>
      canvas_width c = 52 \<and> canvas_height c = 34) \<and>
   (\<exists>c. generatedImage (handleAssembleSheet (\<lambda>s. Some \<lparr>img_width = 10, img_height = 10\<rparr>) True
        \<lparr>sheetImages = [''a''], sheetColumns = 4, sheetSpacing = 5,
         sheetVerticalAlignment = Bottom, sheetHorizontalAlignment = Center,
         generatedImage = None, isGenerating = False, error = None\<rparr>) = Some (ToDataURL c) \<and>
      canvas_width c = 10 \<and> canvas_height c = 10)"
proof -
  let ?i16 = "\<lparr>img_width = 16, img_height = 16\<rparr>"
  let ?i10 = "\<lparr>img_width = 10, img_height = 10\<rparr>"
  let ?st5 = "\<lparr>sheetImages = [''a'', ''b'', ''c'', ''d'', ''e''], sheetColumns = 3, sheetSpacing = 2,
         sheetVerticalAlignment = Bottom, sheetHorizontalAlignment = Center,
         generatedImage = None, isGenerating = False, error = None\<rparr>"
  let ?st1 = "\<lparr>sheetImages = [''a''], sheetColumns = 4, sheetSpacing = 5,
         sheetVerticalAlignment = Bottom, sheetHorizontalAlignment = Center,
         generatedImage = None, isGenerating = False, error = None\<rparr>"
  have l5: "load_all (\<lambda>s. Some ?i16) (sheetImages ?st5) = Some [?i16, ?i16, ?i16, ?i16, ?i16]"
    by simp
  have l1: "load_all (\<lambda>s. Some ?i10) (sheetImages ?st1) = Some [?i10]"
    by simp
  have c5: "cellW [?i16, ?i16, ?i16, ?i16, ?i16] = 16" "cellH [?i16, ?i16, ?i16, ?i16, ?i16] = 16"
    by (simp_all add: cellW_def cellH_def)
  have c1: "cellW [?i10] = 10" "cellH [?i10] = 10"
    by (simp_all add: cellW_def cellH_def)
  have n5: "sheetImages ?st5 \<noteq> []" "1 \<le> sheetColumns ?st5" "0 \<le> sheetSpacing ?st5"
    "int (length [?i16, ?i16, ?i16, ?i16, ?i16]) + sheetColumns ?st5 < 2 ^ 53"
    by simp_all
  have w5: "sheetColumns ?st5 * (cellW [?i16, ?i16, ?i16, ?i16, ?i16] + sheetSpacing ?st5) < 2 ^ 31"
    unfolding c5 by simp
  have h5: "\<lceil>real (length [?i16, ?i16, ?i16, ?i16, ?i16]) / real_of_int (sheetColumns ?st5)\<rceil> *
      (cellH [?i16, ?i16, ?i16, ?i16, ?i16] + sheetSpacing ?st5) < 2 ^ 31"
    unfolding c5 by simp
  have n1: "sheetImages ?st1 \<noteq> []" "1 \<le> sheetColumns ?st1" "0 \<le> sheetSpacing ?st1"
    "int (length [?i10]) + sheetColumns ?st1 < 2 ^ 53"
    by simp_all
  have w1: "sheetColumns ?st1 * (cellW [?i10] + sheetSpacing ?st1) < 2 ^ 31"
    unfolding c1 by simp
  have "\<lceil>real (length [?i10]) / real_of_int (sheetColumns ?st1)\<rceil> = 1"
    using math_ceil_div_ceiling [of 4 1] by (simp add: math_ceil_div_def)
  then have h1: "\<lceil>real (length [?i10]) / real_of_int (sheetColumns ?st1)\<rceil> *
      (cellH [?i10] + sheetSpacing ?st1) < 2 ^ 31"
    unfolding c1 by simp
  have "\<exists>c. generatedImage (handleAssembleSheet (\<lambda>s. Some ?i16) True ?st5) = Some (ToDataURL c) \<and>
      canvas_width c = 52 \<and> canvas_height c = 34"
    using assemble_canvas_size [OF n5(1) l5 n5(2) n5(3) n5(4) w5 h5] unfolding c5 by simp
  moreover have "\<exists>c. generatedImage (handleAssembleSheet (\<lambda>s. Some ?i10) True ?st1) = Some (ToDataURL c) \<and>
      canvas_width c = 10 \<and> canvas_height c = 10"
    using assemble_canvas_size [OF n1(1) l1 n1(2) n1(3) n1(4) w1 h1] unfolding c1 by simp
  ultimately show ?thesis by blast
qed

text \<open>
  C4. When the list of images is not empty and every image loads, with at least one column, a
  spacing that is not negative and a sheet whose numbers stay below \<open>2^53\<close>, where doubles are
  exact (\<open>N + columns\<close>, \<open>columns * (cellW + spacing)\<close> and \<open>rows * (cellH + spacing)\<close>),
  image \<open>i\<close> is drawn at column \<open>i mod columns\<close> and row
  \<open>i div columns\<close>: at the cell origin \<open>(col * (cellW + spacing), row * (cellH + spacing))\<close>
  plus the offset of its alignment, 0, half of the free room rounded down, or all of the free
  room. An 8 by 8 image in a 16 by 16 cell is offset by (4, 4) when centred and by (8, 8) when
  aligned to the right and the bottom.
\<close>

theorem assemble_placement:
  assumes ne: "sheetImages st \<noteq> []"
    and ld: "load_all load (sheetImages st) = Some imgs"
    and cols: "1 \<le> sheetColumns st"
    and sp: "0 \<le> sheetSpacing st"
    and count: "int (length imgs) + sheetColumns st < 2 ^ 53"
    and wide: "sheetColumns st * (cellW imgs + sheetSpacing st) < 2 ^ 53"
    and high: "\<lceil>real (length imgs) / real_of_int (sheetColumns st)\<rceil> *
                 (cellH imgs + sheetSpacing st) < 2 ^ 53"
  shows "\<exists>c. generatedImage (handleAssembleSheet load True st) = Some (ToDataURL c) \<and>
           length (drawn c) = length imgs \<and>
           (\<forall>i < length imgs.
              drawn c ! i =
                (imgs ! i,
                 (int i mod sheetColumns st) * (cellW imgs + sheetSpacing st) +
                   (case sheetHorizontalAlignment st of
                      Left \<Rightarrow> 0
                    | Center \<Rightarrow> (cellW imgs - int (img_width (imgs ! i))) div 2
                    | Right \<Rightarrow> cellW imgs - int (img_width (imgs ! i))),
                 (int i div sheetColumns st) * (cellH imgs + sheetSpacing st) +
                   (case sheetVerticalAlignment st of
                      Top \<Rightarrow> 0
                    | VCenter \<Rightarrow> (cellH imgs - int (img_height (imgs ! i))) div 2
                    | Bottom \<Rightarrow> cellH imgs - int (img_height (imgs ! i))))) \<and>
           xOffset Center 16 \<lparr>img_width = 8, img_height = 8\<rparr> = 4 \<and>
           yOffset VCenter 16 \<lparr>img_width = 8, img_height = 8\<rparr> = 4 \<and>
           xOffset Right 16 \<lparr>img_width = 8, img_height = 8\<rparr> = 8 \<and>
           yOffset Bottom 16 \<lparr>img_width = 8, img_height = 8\<rparr> = 8"
proof -
  let ?c = "\<lparr>canvas_width =
                 (if length imgs = 1 then cellW imgs
                  else sheetColumns st * cellW imgs + (sheetColumns st - 1) * sheetSpacing st),
               canvas_height =
                 (if length imgs = 1 then cellH imgs
                  else math_ceil_div (int (length imgs)) (sheetColumns st) * cellH imgs +
                       (math_ceil_div (int (length imgs)) (sheetColumns st) - 1) * sheetSpacing st),
               drawn = map (draw_call st (cellW imgs) (cellH imgs)) (enumerate 0 imgs)\<rparr>"
  have g: "generatedImage (handleAssembleSheet load True st) = Some (ToDataURL ?c)"
    using handleAssembleSheet_loaded [OF ne ld] by simp
  have n: "length (drawn ?c) = length imgs" by simp
  have d: "drawn ?c ! i =
                (imgs ! i,
                 (int i mod sheetColumns st) * (cellW imgs + sheetSpacing st) +
                   (case sheetHorizontalAlignment st of
                      Left \<Rightarrow> 0
                    | Center \<Rightarrow> (cellW imgs - int (img_width (imgs ! i))) div 2
                    | Right \<Rightarrow> cellW imgs - int (img_width (imgs ! i))),
                 (int i div sheetColumns st) * (cellH imgs + sheetSpacing st) +
                   (case sheetVerticalAlignment st of
                      Top \<Rightarrow> 0
                    | VCenter \<Rightarrow> (cellH imgs - int (img_height (imgs ! i))) div 2
                    | Bottom \<Rightarrow> cellH imgs - int (img_height (imgs ! i))))"
    if "i < length imgs" for i
  proof -
    have "drawn ?c ! i = draw_call st (cellW imgs) (cellH imgs) (i, imgs ! i)"
      using that by (simp add: nth_enumerate_eq)
    moreover have "js_rem (int i) (sheetColumns st) = int i mod sheetColumns st"
      using cols by (intro js_rem_mod) simp_all
    moreover have "xOffset (sheetHorizontalAlignment st) (cellW imgs) (imgs ! i) =
        (case sheetHorizontalAlignment st of
           Left \<Rightarrow> 0
         | Center \<Rightarrow> (cellW imgs - int (img_width (imgs ! i))) div 2
         | Right \<Rightarrow> cellW imgs - int (img_width (imgs ! i)))"
      by (cases "sheetHorizontalAlignment st") (simp_all add: xOffset_def)
    moreover have "yOffset (sheetVerticalAlignment st) (cellH imgs) (imgs ! i) =
        (case sheetVerticalAlignment st of
           Top \<Rightarrow> 0
         | VCenter \<Rightarrow> (cellH imgs - int (img_height (imgs ! i))) div 2
         | Bottom \<Rightarrow> cellH imgs - int (img_height (imgs ! i)))"
      by (cases "sheetVerticalAlignment st") (simp_all add: yOffset_def)
    ultimately show ?thesis by (simp add: draw_call_def Let_def)
  qed
  have o: "xOffset Center 16 \<lparr>img_width = 8, img_height = 8\<rparr> = 4 \<and>
           yOffset VCenter 16 \<lparr>img_width = 8, img_height = 8\<rparr> = 4 \<and>
           xOffset Right 16 \<lparr>img_width = 8, img_height = 8\<rparr> = 8 \<and>
           yOffset Bottom 16 \<lparr>img_width = 8, img_height = 8\<rparr> = 8"
    by (simp add: xOffset_def yOffset_def)
  show ?thesis using g n d o by blast
qed

theorem assemble_placement_witness:
  "\<exists>c. generatedImage
         (handleAssembleSheet
            (\<lambda>s. if s = ''big'' then Some \<lparr>img_width = 16, img_height = 16\<rparr>
                  else Some \<lparr>img_width = 8, img_height = 8\<rparr>) True
            \<lparr>sheetImages = [''big'', ''small'', ''small''], sheetColumns = 2, sheetSpacing = 1,
             sheetVerticalAlignment = VCenter, sheetHorizontalAlignment = Center,
             generatedImage = None, isGenerating = False, error = None\<rparr>) = Some (ToDataURL c) \<and>
       drawn c ! 0 = (\<lparr>img_width = 16, img_height = 16\<rparr>, 0, 0) \<and>
       drawn c ! 1 = (\<lparr>img_width = 8, img_height = 8\<rparr>, 17 + 4, 0 + 4) \<and>
       drawn c ! 2 = (\<lparr>img_width = 8, img_height = 8\<rparr>, 0 + 4, 17 + 4)"
proof -
  let ?big = "\<lparr>img_width = 16, img_height = 16\<rparr>"
  let ?small = "\<lparr>img_width = 8, img_height = 8\<rparr>"
  let ?load = "\<lambda>s. if s = ''big'' then Some ?big else Some ?small"
  let ?st = "\<lparr>sheetImages = [''big'', ''small'', ''small''], sheetColumns = 2, sheetSpacing = 1,
             sheetVerticalAlignment = VCenter, sheetHorizontalAlignment = Center,
             generatedImage = None, isGenerating = False, error = None\<rparr>"
  have l: "load_all ?load (sheetImages ?st) = Some [?big, ?small, ?small]" by simp
  have c: "cellW [?big, ?small, ?small] = 16" "cellH [?big, ?small, ?small] = 16"
    by (simp_all add: cellW_def cellH_def)
  have n: "sheetImages ?st \<noteq> []" "1 \<le> sheetColumns ?st" "0 \<le> sheetSpacing ?st"
    "int (length [?big, ?small, ?small]) + sheetColumns ?st < 2 ^ 53"
    by simp_all
  have w: "sheetColumns ?st * (cellW [?big, ?small, ?small] + sheetSpacing ?st) < 2 ^ 53"
    unfolding c by simp
  have h: "\<lceil>real (length [?big, ?small, ?small]) / real_of_int (sheetColumns ?st)\<rceil> *
      (cellH [?big, ?small, ?small] + sheetSpacing ?st) < 2 ^ 53"
    unfolding c by simp
  from assemble_placement [OF n(1) l n(2) n(3) n(4) w h] obtain cv
    where g: "generatedImage (handleAssembleSheet ?load True ?st) = Some (ToDataURL cv)"
      and d: "\<forall>i < length [?big, ?small, ?small].
              drawn cv ! i =
                ([?big, ?small, ?small] ! i,
                 (int i mod sheetColumns ?st) * (cellW [?big, ?small, ?small] + sheetSpacing ?st) +
                   (case sheetHorizontalAlignment ?st of
                      Left \<Rightarrow> 0
                    | Center \<Rightarrow> (cellW [?big, ?small, ?small] - int (img_width ([?big, ?small, ?small] ! i))) div 2
                    | Right \<Rightarrow> cellW [?big, ?small, ?small] - int (img_width ([?big, ?small, ?small] ! i))),
                 (int i div sheetColumns ?st) * (cellH [?big, ?small, ?small] + sheetSpacing ?st) +
                   (case sheetVerticalAlignment ?st of
                      Top \<Rightarrow> 0
                    | VCenter \<Rightarrow> (cellH [?big, ?small, ?small] - int (img_height ([?big, ?small, ?small] ! i))) div 2
                    | Bottom \<Rightarrow> cellH [?big, ?small, ?small] - int (img_height ([?big, ?small, ?small] ! i))))"
    by auto
  have "drawn cv ! 0 = (?big, 0, 0)" using d [rule_format, of 0] unfolding c by simp
  moreover have "drawn cv ! 1 = (?small, 17 + 4, 0 + 4)" using d [rule_format, of 1] unfolding c by simp
  moreover have "drawn cv ! 2 = (?small, 0 + 4, 17 + 4)" using d [rule_format, of 2] unfolding c by simp
  ultimately show ?thesis using g by blast
qed

text \<open>
  C5, as the code has it. On a canvas of \<open>width * height\<close> pixels and for a seed outside it,
  neither handler signals an error: both return. \<^verbatim>\<open>floodFill\<close> hands the buffer back
  unchanged, whatever the colour. \<^verbatim>\<open>removeColor\<close> hands back a buffer of the same length,
  and the same buffer whenever the byte offset \<open>(startY * width + startX) * 4\<close> of the seed lies
  outside the data array.
\<close>

theorem out_of_bounds_seed_silent:
  assumes "0 < width" "0 < height"
    and "length data = 4 * width * height"
    and out: "\<not> in_bounds width height (startX, startY)"
  shows "floodFill width height color data startX startY = Returns data \<and>
         (\<exists>d'. removeColor width height data startX startY = Returns d' \<and> length d' = length data) \<and>
         (rd data ((startY * int width + startX) * 4) = None \<longrightarrow>
            removeColor width height data startX startY = Returns data)"
proof -
  have "floodFill width height color data startX startY = Returns data"
    using out by (rule floodFill_out)
  moreover have "\<exists>d'. removeColor width height data startX startY = Returns d' \<and> length d' = length data"
    by (simp add: removeColor_def Let_def)
  moreover have "rd data ((startY * int width + startX) * 4) = None \<longrightarrow>
            removeColor width height data startX startY = Returns data"
    by (simp add: removeColor_def Let_def mask_loop_undefined)
  ultimately show ?thesis by blast
qed

theorem out_of_bounds_seed_silent_witness:
  "floodFill 2 2 ''#ff0000'' [0, 0, 0, 255, 1, 1, 1, 255, 40, 40, 40, 255, 0, 0, 0, 255] 2 0 =
     Returns [0, 0, 0, 255, 1, 1, 1, 255, 40, 40, 40, 255, 0, 0, 0, 255] \<and>
   removeColor 2 2 [0, 0, 0, 255, 1, 1, 1, 255, 40, 40, 40, 255, 0, 0, 0, 255] 5 5 =
     Returns [0, 0, 0, 255, 1, 1, 1, 255, 40, 40, 40, 255, 0, 0, 0, 255]"
proof -
  let ?data = "[0, 0, 0, 255, 1, 1, 1, 255, 40, 40, 40, 255, 0, 0, 0, 255] :: byte list"
  have w: "(0::nat) < 2" and len: "length ?data = 4 * 2 * 2" by simp_all
  have o1: "\<not> in_bounds 2 2 (2, 0)" and o2: "\<not> in_bounds 2 2 (5, 5)"
    by (simp_all add: in_bounds_def)
  have "rd ?data ((5 * int 2 + 5) * 4) = None" by (simp add: rd_def)
  then have "removeColor 2 2 ?data 5 5 = Returns ?data"
    using out_of_bounds_seed_silent [OF w w len o2, of "''#ff0000''"] by blast
  moreover have "floodFill 2 2 ''#ff0000'' ?data 2 0 = Returns ?data"
    using out_of_bounds_seed_silent [OF w w len o1, of "''#ff0000''"] by blast
  ultimately show ?thesis by blast
qed

text \<open>
  The claim C5 as stated fails on the 2 by 2 canvas at the seed (2, 0): \<^verbatim>\<open>floodFill\<close>
  returns without an error, and \<^verbatim>\<open>removeColor\<close> returns without an error and with a changed
  buffer, because the offset of (2, 0) is the offset of the pixel (0, 1).
\<close>

theorem out_of_bounds_seed_counterexample:
  "\<not> in_bounds 2 2 (2, 0) \<and>
   floodFill 2 2 ''#ff0000'' [0, 0, 0, 255, 1, 1, 1, 255, 40, 40, 40, 255, 0, 0, 0, 255] 2 0 =
     Returns [0, 0, 0, 255, 1, 1, 1, 255, 40, 40, 40, 255, 0, 0, 0, 255] \<and>
   floodFill 2 2 ''#ff0000'' [0, 0, 0, 255, 1, 1, 1, 255, 40, 40, 40, 255, 0, 0, 0, 255] 2 0 \<noteq>
     Throws OutOfBounds \<and>
   removeColor 2 2 [0, 0, 0, 255, 1, 1, 1, 255, 40, 40, 40, 255, 0, 0, 0, 255] 2 0 =
     Returns [0, 0, 0, 255, 1, 1, 1, 255, 40, 40, 40, 0, 0, 0, 0, 255] \<and>
   removeColor 2 2 [0, 0, 0, 255, 1, 1, 1, 255, 40, 40, 40, 255, 0, 0, 0, 255] 2 0 \<noteq>
     Throws OutOfBounds"
proof -
  have "\<not> in_bounds 2 2 (2, 0)" by (simp add: in_bounds_def)
  moreover have f: "floodFill 2 2 ''#ff0000'' [0, 0, 0, 255, 1, 1, 1, 255, 40, 40, 40, 255, 0, 0, 0, 255] 2 0 =
     Returns [0, 0, 0, 255, 1, 1, 1, 255, 40, 40, 40, 255, 0, 0, 0, 255]"
    by code_simp
  moreover have r: "removeColor 2 2 [0, 0, 0, 255, 1, 1, 1, 255, 40, 40, 40, 255, 0, 0, 0, 255] 2 0 =
     Returns [0, 0, 0, 255, 1, 1, 1, 255, 40, 40, 40, 0, 0, 0, 0, 255]"
    by code_simp
  moreover have "floodFill 2 2 ''#ff0000'' [0, 0, 0, 255, 1, 1, 1, 255, 40, 40, 40, 255, 0, 0, 0, 255] 2 0 \<noteq>
     Throws OutOfBounds" unfolding f by simp
  moreover have "removeColor 2 2 [0, 0, 0, 255, 1, 1, 1, 255, 40, 40, 40, 255, 0, 0, 0, 255] 2 0 \<noteq>
     Throws OutOfBounds" unfolding r by simp
  ultimately show ?thesis by blast
qed

text \<open>
  C6, as the code has it. With no images \<^verbatim>\<open>handleAssembleSheet\<close> returns at once: the
  application state, with its image, its error message and its busy flag, is what it was.
\<close>

theorem assemble_empty_silent:
  "sheetImages st = [] \<Longrightarrow> handleAssembleSheet load has_ctx st = st"
  by (simp add: handleAssembleSheet_def)

theorem assemble_empty_silent_witness:
  "error (handleAssembleSheet (\<lambda>s. Some \<lparr>img_width = 1, img_height = 1\<rparr>) True
     \<lparr>sheetImages = [], sheetColumns = 3, sheetSpacing = 2,
      sheetVerticalAlignment = Top, sheetHorizontalAlignment = Left,
      generatedImage = Some (DataUrl ''data:image/png;base64,AAAA''), isGenerating = False,
      error = None\<rparr>) = None \<and>
   generatedImage (handleAssembleSheet (\<lambda>s. Some \<lparr>img_width = 1, img_height = 1\<rparr>) True
     \<lparr>sheetImages = [], sheetColumns = 3, sheetSpacing = 2,
      sheetVerticalAlignment = Top, sheetHorizontalAlignment = Left,
      generatedImage = Some (DataUrl ''data:image/png;base64,AAAA''), isGenerating = False,
      error = None\<rparr>) = Some (DataUrl ''data:image/png;base64,AAAA'')"
proof -
  let ?st = "\<lparr>sheetImages = [], sheetColumns = 3, sheetSpacing = 2,
      sheetVerticalAlignment = Top, sheetHorizontalAlignment = Left,
      generatedImage = Some (DataUrl ''data:image/png;base64,AAAA''), isGenerating = False,
      error = None\<rparr>"
  have "sheetImages ?st = []" by simp
  then have "handleAssembleSheet (\<lambda>s. Some \<lparr>img_width = 1, img_height = 1\<rparr>) True ?st = ?st"
    by (rule assemble_empty_silent)
  then show ?thesis by simp
qed

text \<open>
  The claim C6 as stated fails on the initial state: after the call no error message is set.
\<close>

theorem assemble_empty_counterexample:
  "handleAssembleSheet (\<lambda>s. None) True
     \<lparr>sheetImages = [], sheetColumns = 4, sheetSpacing = 0,
      sheetVerticalAlignment = Bottom, sheetHorizontalAlignment = Center,
      generatedImage = None, isGenerating = False, error = None\<rparr> =
   \<lparr>sheetImages = [], sheetColumns = 4, sheetSpacing = 0,
      sheetVerticalAlignment = Bottom, sheetHorizontalAlignment = Center,
      generatedImage = None, isGenerating = False, error = None\<rparr> \<and>
   error (handleAssembleSheet (\<lambda>s. None) True
     \<lparr>sheetImages = [], sheetColumns = 4, sheetSpacing = 0,
      sheetVerticalAlignment = Bottom, sheetHorizontalAlignment = Center,
      generatedImage = None, isGenerating = False, error = None\<rparr>) = None"
  by (simp add: handleAssembleSheet_def)

text \<open>
  C7. Under the conditions of C1, a second \<^verbatim>\<open>floodFill\<close> with the same seed and colour hands
  back the buffer of the first; and when the seed's pixel already equals the new colour in all
  four bytes, the first call hands the buffer back unchanged.
\<close>

theorem floodFill_idempotent:
  assumes col: "is_hex_color color"
    and len: "length data = 4 * width * height"
    and seed: "in_bounds width height (startX, startY)"
  shows "(\<exists>d'. floodFill width height color data startX startY = Returns d' \<and>
            floodFill width height color d' startX startY = Returns d') \<and>
         (pixel_at data width (startX, startY) = newColor color \<longrightarrow>
            floodFill width height color data startX startY = Returns data)"
proof -
  from floodFill_char [OF assms] obtain d'
    where r: "floodFill width height color data startX startY = Returns d'"
      and l: "length d' = length data"
      and p: "\<And>p. in_bounds width height p \<Longrightarrow> pixel_at d' width p =
                (if p \<in> component width height data (startX, startY) then newColor color
                 else pixel_at data width p)"
    by blast
  have "(startX, startY) \<in> component width height data (startX, startY)"
    using seed by (rule component.seed)
  then have "pixel_at d' width (startX, startY) = newColor color" using p [OF seed] by simp
  moreover have "length d' = 4 * width * height" using l len by simp
  ultimately have "floodFill width height color d' startX startY = Returns d'"
    using floodFill_noop [OF col _ seed] by blast
  with r have "\<exists>d'. floodFill width height color data startX startY = Returns d' \<and>
            floodFill width height color d' startX startY = Returns d'" by blast
  moreover have "pixel_at data width (startX, startY) = newColor color \<longrightarrow>
            floodFill width height color data startX startY = Returns data"
    using floodFill_noop [OF assms] by blast
  ultimately show ?thesis by blast
qed

theorem floodFill_idempotent_witness:
  "floodFill 2 1 ''#ff0000'' [0, 0, 0, 255, 0, 0, 0, 255] 0 0 = Returns [255, 0, 0, 255, 255, 0, 0, 255] \<and>
   floodFill 2 1 ''#ff0000'' [255, 0, 0, 255, 255, 0, 0, 255] 0 0 = Returns [255, 0, 0, 255, 255, 0, 0, 255]"
proof -
  let ?data = "[0, 0, 0, 255, 0, 0, 0, 255] :: byte list"
  have col: "is_hex_color ''#ff0000''" by (simp add: is_hex_color_def hexDigit_def)
  have len: "length ?data = 4 * 2 * 1" by simp
  have inb: "in_bounds 2 1 (0, 0)" by (simp add: in_bounds_def)
  from floodFill_idempotent [OF col len inb] obtain d'
    where r: "floodFill 2 1 ''#ff0000'' ?data 0 0 = Returns d'"
      and i: "floodFill 2 1 ''#ff0000'' d' 0 0 = Returns d'"
    by blast
  have "floodFill 2 1 ''#ff0000'' ?data 0 0 = Returns [255, 0, 0, 255, 255, 0, 0, 255]"
    by code_simp
  with r have "d' = [255, 0, 0, 255, 255, 0, 0, 255]" by simp
  with r i show ?thesis by simp
qed

text \<open>
  C8. On a canvas of \<open>width * height\<close> pixels \<^verbatim>\<open>removeColor\<close> returns for every seed, in
  bounds or not; it keeps the red, green and blue byte of every pixel, and it keeps all four
  bytes of every pixel whose alpha is 0. When the seed is in bounds and its pixel has alpha 0,
  the buffer comes back as it was.
\<close>

theorem removeColor_keeps_rgb_and_transparent:
  assumes "0 < width" "0 < height"
    and len: "length data = 4 * width * height"
  shows "\<exists>d'. removeColor width height data startX startY = Returns d' \<and>
     length d' = length data \<and>
     (\<forall>i < width * height.
        red (get_pixel d' i) = red (get_pixel data i) \<and>
        green (get_pixel d' i) = green (get_pixel data i) \<and>
        blue (get_pixel d' i) = blue (get_pixel data i) \<and>
        (alpha (get_pixel data i) = 0 \<longrightarrow> get_pixel d' i = get_pixel data i)) \<and>
     (in_bounds width height (startX, startY) \<and>
      alpha (pixel_at data width (startX, startY)) = 0 \<longrightarrow> d' = data)"
proof -
  from removeColor_frame [of width height data startX startY] obtain d'
    where r: "removeColor width height data startX startY = Returns d'"
      and l: "length d' = length data"
      and px: "\<forall>i. 4 * i + 3 < length data \<longrightarrow>
        red (get_pixel d' i) = red (get_pixel data i) \<and>
        green (get_pixel d' i) = green (get_pixel data i) \<and>
        blue (get_pixel d' i) = blue (get_pixel data i) \<and>
        (alpha (get_pixel data i) = 0 \<longrightarrow> get_pixel d' i = get_pixel data i)"
      and n: "length data = 4 * width * height \<and> in_bounds width height (startX, startY) \<and>
        alpha (pixel_at data width (startX, startY)) = 0 \<longrightarrow> d' = data"
    by (elim exE conjE)
  have "red (get_pixel d' i) = red (get_pixel data i) \<and>
        green (get_pixel d' i) = green (get_pixel data i) \<and>
        blue (get_pixel d' i) = blue (get_pixel data i) \<and>
        (alpha (get_pixel data i) = 0 \<longrightarrow> get_pixel d' i = get_pixel data i)"
    if "i < width * height" for i
  proof -
    have "4 * i + 3 < length data" using that len by simp
    then show ?thesis using px by blast
  qed
  moreover have "in_bounds width height (startX, startY) \<and>
      alpha (pixel_at data width (startX, startY)) = 0 \<longrightarrow> d' = data"
    using n len by blast
  ultimately show ?thesis using r l by blast
qed

theorem removeColor_keeps_rgb_and_transparent_witness:
  "removeColor 2 1 [10, 20, 30, 0, 10, 20, 30, 255] 0 0 = Returns [10, 20, 30, 0, 10, 20, 30, 255]"
proof -
  let ?data = "[10, 20, 30, 0, 10, 20, 30, 255] :: byte list"
  have w: "(0::nat) < 2" and h: "(0::nat) < 1" and len: "length ?data = 4 * 2 * 1" by simp_all
  from removeColor_keeps_rgb_and_transparent [OF w h len, of 0 0]
  obtain d' where r: "removeColor 2 1 ?data 0 0 = Returns d'"
    and n: "in_bounds 2 1 (0, 0) \<and> alpha (pixel_at ?data 2 (0, 0)) = 0 \<longrightarrow> d' = ?data"
    by (elim exE conjE)
  have "in_bounds 2 1 (0, 0) \<and> alpha (pixel_at ?data 2 (0, 0)) = 0"
    by (simp add: in_bounds_def pixel_at_def pixel_index_def get_pixel_def alpha_def)
  with n have "d' = ?data" by blast
  with r show ?thesis by simp
qed

text \<open>
  C9, as the code has it. The four neighbours of a filled pixel are pushed without a bounds
  check, so the stack can hold positions outside the canvas. Every stack entry, in every state
  of the loop, is the seed or a 4-neighbour of an in-bounds position; and a round that pops a
  position outside the canvas only drops it: the pixel data and the rest of the stack stay as
  they are.
\<close>

theorem floodFill_stack_near_bounds:
  "(s \<in> loop_states width height color data startX startY \<longrightarrow>
      (\<forall>q \<in> set (fst s). q = (startX, startY) \<or>
          (\<exists>p. in_bounds width height p \<and> q \<in> set (neighbours p)))) \<and>
   (\<not> in_bounds width height q \<longrightarrow> fill_step width height t f (q # rest, d) = (rest, d))"
proof -
  have "\<forall>q \<in> set (fst s). q = (startX, startY) \<or>
          (\<exists>p. in_bounds width height p \<and> q \<in> set (neighbours p))"
    if "s \<in> loop_states width height color data startX startY"
  proof -
    from that obtain t f where "s \<in> fill_states width height t f (startX, startY) data"
      unfolding loop_states_def Let_def by (auto split: if_splits)
    then show ?thesis by (rule fill_states_stack)
  qed
  then show ?thesis using fill_step_out by blast
qed

theorem floodFill_stack_near_bounds_witness:
  "(\<exists>p. in_bounds 1 1 p \<and> (1, 0) \<in> set (neighbours p)) \<and>
   fill_step 1 1 (Some 0, Some 0, Some 0, Some 255) (Some 255, Some 0, Some 0, Some 255)
     ([(1, 0)], [255, 0, 0, 255]) = ([], [255, 0, 0, 255])"
proof -
  let ?s = "([(0, -1), (0, 1), (-1, 0), (1, 0)], [255, 0, 0, 255]) :: pos list \<times> byte list"
  note th = floodFill_stack_near_bounds [of ?s 1 1 "''#ff0000''" "[0, 0, 0, 255]" 0 0 "(1, 0)"
      "(Some 0, Some 0, Some 0, Some 255)" "(Some 255, Some 0, Some 0, Some 255)" "[]" "[255, 0, 0, 255]"]
  have "\<forall>q \<in> set (fst ?s). q = (0, 0) \<or> (\<exists>p. in_bounds 1 1 p \<and> q \<in> set (neighbours p))"
    using th loop_states_example by blast
  then have "((1, 0) :: pos) = (0, 0) \<or> (\<exists>p. in_bounds 1 1 p \<and> (1, 0) \<in> set (neighbours p))"
    by simp
  then have a: "\<exists>p. in_bounds 1 1 p \<and> (1, 0) \<in> set (neighbours p)" by simp
  have "\<not> in_bounds 1 1 (1, 0)" by (simp add: in_bounds_def)
  then have "fill_step 1 1 (Some 0, Some 0, Some 0, Some 255) (Some 255, Some 0, Some 0, Some 255)
     ([(1, 0)], [255, 0, 0, 255]) = ([], [255, 0, 0, 255])"
    using th by blast
  with a show ?thesis by blast
qed

text \<open>
  The claim C9 as stated fails on the 1 by 1 canvas: after the first round the stack holds the
  four neighbours of (0, 0), all of them outside the canvas.
\<close>

theorem floodFill_stack_bounds_counterexample:
  "in_bounds 1 1 (0, 0) \<and>
   ([(0, -1), (0, 1), (-1, 0), (1, 0)], [255, 0, 0, 255]) \<in> loop_states 1 1 ''#ff0000'' [0, 0, 0, 255] 0 0 \<and>
   \<not> in_bounds 1 1 (1, 0)"
  using loop_states_example by (simp add: in_bounds_def)

text \<open>
  C10. The colour \<^verbatim>\<open>floodFill\<close> writes has alpha 255, so every pixel the call changes ends
  with alpha 255. When the seed's pixel has the red, green and blue of the fill colour and an
  alpha below 255, the call is no no-op: the buffer changes, and every pixel of the seed's
  component (all equal to the seed's pixel) keeps its red, green and blue and gets alpha 255.
\<close>

theorem floodFill_makes_opaque:
  assumes col: "is_hex_color color"
    and len: "length data = 4 * width * height"
    and seed: "in_bounds width height (startX, startY)"
  shows "\<exists>d'. floodFill width height color data startX startY = Returns d' \<and>
           alpha (newColor color) = 255 \<and>
           (\<forall>p. in_bounds width height p \<and> pixel_at d' width p \<noteq> pixel_at data width p \<longrightarrow>
              alpha (pixel_at d' width p) = 255) \<and>
           (red (pixel_at data width (startX, startY)) = red (newColor color) \<and>
            green (pixel_at data width (startX, startY)) = green (newColor color) \<and>
            blue (pixel_at data width (startX, startY)) = blue (newColor color) \<and>
            alpha (pixel_at data width (startX, startY)) \<noteq> 255 \<longrightarrow>
              d' \<noteq> data \<and>
              (\<forall>p \<in> component width height data (startX, startY).
                 pixel_at data width p = pixel_at data width (startX, startY) \<and>
                 red (pixel_at d' width p) = red (pixel_at data width p) \<and>
                 green (pixel_at d' width p) = green (pixel_at data width p) \<and>
                 blue (pixel_at d' width p) = blue (pixel_at data width p) \<and>
                 alpha (pixel_at d' width p) = 255))"
proof -
  let ?C = "component width height data (startX, startY)"
  let ?t = "pixel_at data width (startX, startY)"
  from floodFill_char [OF assms] obtain d'
    where r: "floodFill width height color data startX startY = Returns d'"
      and p: "\<And>p. in_bounds width height p \<Longrightarrow> pixel_at d' width p =
                (if p \<in> ?C then newColor color else pixel_at data width p)"
    by blast
  have a: "alpha (newColor color) = 255" by (rule alpha_newColor)
  have ch: "alpha (pixel_at d' width q) = 255"
    if "in_bounds width height q \<and> pixel_at d' width q \<noteq> pixel_at data width q" for q
  proof -
    from that p [of q] have "pixel_at d' width q = newColor color" by (auto split: if_splits)
    then show ?thesis using a by simp
  qed
  have raise: "d' \<noteq> data \<and>
      (\<forall>q \<in> ?C. pixel_at data width q = ?t \<and>
         red (pixel_at d' width q) = red (pixel_at data width q) \<and>
         green (pixel_at d' width q) = green (pixel_at data width q) \<and>
         blue (pixel_at d' width q) = blue (pixel_at data width q) \<and>
         alpha (pixel_at d' width q) = 255)"
    if h: "red ?t = red (newColor color) \<and> green ?t = green (newColor color) \<and>
        blue ?t = blue (newColor color) \<and> alpha ?t \<noteq> 255"
  proof
    have "(startX, startY) \<in> ?C" using seed by (rule component.seed)
    then have "pixel_at d' width (startX, startY) = newColor color" using p [OF seed] by simp
    then have "alpha (pixel_at d' width (startX, startY)) \<noteq> alpha ?t" using a h by simp
    then show "d' \<noteq> data" by auto
  next
    show "\<forall>q \<in> ?C. pixel_at data width q = ?t \<and>
         red (pixel_at d' width q) = red (pixel_at data width q) \<and>
         green (pixel_at d' width q) = green (pixel_at data width q) \<and>
         blue (pixel_at d' width q) = blue (pixel_at data width q) \<and>
         alpha (pixel_at d' width q) = 255"
    proof
      fix q assume q: "q \<in> ?C"
      have c: "pixel_at data width q = ?t" using q by (rule component_colour)
      have "in_bounds width height q" using q by (rule component_in_bounds)
      then have "pixel_at d' width q = newColor color" using p q by simp
      then show "pixel_at data width q = ?t \<and>
         red (pixel_at d' width q) = red (pixel_at data width q) \<and>
         green (pixel_at d' width q) = green (pixel_at data width q) \<and>
         blue (pixel_at d' width q) = blue (pixel_at data width q) \<and>
         alpha (pixel_at d' width q) = 255"
        using c h a by simp
    qed
  qed
  show ?thesis using r a ch raise by blast
qed

theorem floodFill_makes_opaque_witness:
  "\<exists>d'. floodFill 2 1 ''#ff0000'' [255, 0, 0, 128, 255, 0, 0, 128] 0 0 = Returns d' \<and>
     d' \<noteq> [255, 0, 0, 128, 255, 0, 0, 128] \<and>
     alpha (pixel_at d' 2 (0, 0)) = 255 \<and>
     alpha (pixel_at d' 2 (1, 0)) = 255"
proof -
  let ?data = "[255, 0, 0, 128, 255, 0, 0, 128] :: byte list"
  let ?C = "component 2 1 ?data (0, 0)"
  have col: "is_hex_color ''#ff0000''" by (simp add: is_hex_color_def hexDigit_def)
  have len: "length ?data = 4 * 2 * 1" by simp
  have inb: "in_bounds 2 1 (0, 0)" "in_bounds 2 1 (1, 0)" by (simp_all add: in_bounds_def)
  have px: "pixel_at ?data 2 (0, 0) = (255, 0, 0, 128)" "pixel_at ?data 2 (1, 0) = (255, 0, 0, 128)"
    by (simp_all add: pixel_at_def pixel_index_def get_pixel_def)
  have nc: "newColor ''#ff0000'' = (255, 0, 0, 255)"
    by (simp add: newColor_def hexToRgb_def slice_def parseInt16_def hexDigit_def fill_px_def to_clamped_def)
  have c0: "(0, 0) \<in> ?C" using inb(1) by (rule component.seed)
  have nb: "(1, 0) \<in> set (neighbours (0, 0))" by (simp add: neighbours_def)
  have e: "pixel_at ?data 2 (1, 0) = pixel_at ?data 2 (0, 0)" by (simp add: px)
  have c1: "(1, 0) \<in> ?C" using c0 nb inb(2) e by (rule component.step)
  have h: "red (pixel_at ?data 2 (0, 0)) = red (newColor ''#ff0000'') \<and>
      green (pixel_at ?data 2 (0, 0)) = green (newColor ''#ff0000'') \<and>
      blue (pixel_at ?data 2 (0, 0)) = blue (newColor ''#ff0000'') \<and>
      alpha (pixel_at ?data 2 (0, 0)) \<noteq> 255"
    unfolding px nc by (simp add: red_def green_def blue_def alpha_def)
  from floodFill_makes_opaque [OF col len inb(1)] obtain d'
    where all: "floodFill 2 1 ''#ff0000'' ?data 0 0 = Returns d' \<and>
           alpha (newColor ''#ff0000'') = 255 \<and>
           (\<forall>p. in_bounds 2 1 p \<and> pixel_at d' 2 p \<noteq> pixel_at ?data 2 p \<longrightarrow>
              alpha (pixel_at d' 2 p) = 255) \<and>
           (red (pixel_at ?data 2 (0, 0)) = red (newColor ''#ff0000'') \<and>
            green (pixel_at ?data 2 (0, 0)) = green (newColor ''#ff0000'') \<and>
            blue (pixel_at ?data 2 (0, 0)) = blue (newColor ''#ff0000'') \<and>
            alpha (pixel_at ?data 2 (0, 0)) \<noteq> 255 \<longrightarrow>
              d' \<noteq> ?data \<and>
              (\<forall>p \<in> ?C.
                 pixel_at ?data 2 p = pixel_at ?data 2 (0, 0) \<and>
                 red (pixel_at d' 2 p) = red (pixel_at ?data 2 p) \<and>
                 green (pixel_at d' 2 p) = green (pixel_at ?data 2 p) \<and>
                 blue (pixel_at d' 2 p) = blue (pixel_at ?data 2 p) \<and>
                 alpha (pixel_at d' 2 p) = 255))" ..
  note r = all [THEN conjunct1]
  from all [THEN conjunct2, THEN conjunct2, THEN conjunct2] h
  have concl: "d' \<noteq> ?data \<and>
              (\<forall>p \<in> ?C.
                 pixel_at ?data 2 p = pixel_at ?data 2 (0, 0) \<and>
                 red (pixel_at d' 2 p) = red (pixel_at ?data 2 p) \<and>
                 green (pixel_at d' 2 p) = green (pixel_at ?data 2 p) \<and>
                 blue (pixel_at d' 2 p) = blue (pixel_at ?data 2 p) \<and>
                 alpha (pixel_at d' 2 p) = 255)" by (rule mp)
  note n = concl [THEN conjunct1]
  have a: "alpha (pixel_at d' 2 p) = 255" if "p \<in> ?C" for p
    using concl [THEN conjunct2, rule_format, OF that] by simp
  have "alpha (pixel_at d' 2 (0, 0)) = 255" "alpha (pixel_at d' 2 (1, 0)) = 255"
    using a [OF c0] a [OF c1] by simp_all
  with r n show ?thesis by blast
qed

end
